theory Spec2Isabelle
  imports Complex_Main "HOL-Library.Sublist"
begin

section \<open>Knowledge-source pipeline: shallow embedding\<close>

text \<open>
  The development embeds the knowledge-source package of the repository
  (\<^verbatim>\<open>confluence_client.py\<close>, \<^verbatim>\<open>vector_client.py\<close>, \<^verbatim>\<open>text_processor.py\<close>,
  \<^verbatim>\<open>server.py\<close>) function by function.  Python exceptions are values of
  \<open>py_exception\<close>, a call that may raise returns \<open>py_exception + 'a\<close>, remote
  services (the Confluence REST API, the Pinecone index, the embedding API) are
  parameters of the functions that call them, and their mutable state is passed
  explicitly.
\<close>

subsection \<open>Python values and built-ins\<close>

datatype py_exception =
    TypeError string
  | KeyError string
  | ValueError string
  | OtherError string

text \<open>\<^verbatim>\<open>str(e)\<close>: the message; a \<^verbatim>\<open>KeyError\<close> prints the repr of the missing key.\<close>

fun exception_str :: "py_exception \<Rightarrow> string" where
  "exception_str (TypeError m) = m"
| "exception_str (KeyError k) = [CHR 0x27] @ k @ [CHR 0x27]"
| "exception_str (ValueError m) = m"
| "exception_str (OtherError m) = m"

text \<open>\<^verbatim>\<open>d.get(k, default)\<close> on a dictionary.\<close>

definition dict_get :: "('k \<rightharpoonup> 'v) \<Rightarrow> 'k \<Rightarrow> 'v \<Rightarrow> 'v" where
  "dict_get d k dflt = (case d k of None \<Rightarrow> dflt | Some v \<Rightarrow> v)"


definition or_int :: "int option \<Rightarrow> int \<Rightarrow> int" where
  "or_int a b = (case a of None \<Rightarrow> b | Some v \<Rightarrow> if v = 0 then b else v)"


definition slice_last :: "int \<Rightarrow> 'a list \<Rightarrow> 'a list" where
  "slice_last k xs = drop (length xs - nat k) xs"

subsection \<open>Document source: listing the pages of a space\<close>

text \<open>
  \<^verbatim>\<open>ConfluenceClient.get_space_pages\<close>.  The parameter \<open>fetch\<close> is the upstream:
  \<open>fetch start\<close> is what
  \<^verbatim>\<open>_make_request("GET", ".../content/page?start={start}&limit=100").get("page", {}).get("results", [])\<close>
  evaluates to (the empty list when the transport fails, since \<^verbatim>\<open>_make_request\<close>
  then returns a dictionary without the key \<^verbatim>\<open>page\<close>).  The \<^verbatim>\<open>while True\<close> loop need
  not end, so the loop lives in the option monad: \<open>None\<close> is a loop that never
  returns.
\<close>

partial_function (option) get_space_pages_loop ::
  "(nat \<Rightarrow> 'p list) \<Rightarrow> nat \<Rightarrow> 'p list \<Rightarrow> 'p list option" where
  "get_space_pages_loop fetch start all_pages =
     (let pages = fetch start in
      if pages = [] then Some all_pages
      else if length pages < 100 then Some (all_pages @ pages)
      else get_space_pages_loop fetch (start + 100) (all_pages @ pages))"

definition get_space_pages :: "(nat \<Rightarrow> 'p list) \<Rightarrow> 'p list option" where
  "get_space_pages fetch = get_space_pages_loop fetch 0 []"

subsection \<open>Vector index: delete\<close>






subsection \<open>Retrieval engine: merging results\<close>


record document =
  doc_id :: string
  doc_title :: string
  doc_content :: string
  doc_space :: string
  doc_url :: string










subsection \<open>Text processor: strings\<close>

text \<open>
  Python strings are sequences of code points; the model takes them as lists of
  \<open>char\<close>, that is, code points below 256.  \<open>isspace\<close> holds of the twelve such
  code points on which \<^verbatim>\<open>str.isspace\<close>, \<^verbatim>\<open>str.strip()\<close> and the pattern \<^verbatim>\<open>\s\<close> agree.
\<close>

abbreviation NL :: char where "NL \<equiv> CHR 0x0A"
abbreviation TAB :: char where "TAB \<equiv> CHR 0x09"

definition isspace :: "char \<Rightarrow> bool" where
  "isspace c = (of_char c \<in> {9, 10, 11, 12, 13, 28, 29, 30, 31, 32, 133, 160 :: nat})"

definition strip :: "string \<Rightarrow> string" where
  "strip s = rev (dropWhile isspace (rev (dropWhile isspace s)))"

text \<open>\<^verbatim>\<open>s.replace(old, new)\<close>: occurrences are replaced from the left, without overlap.\<close>

function replace :: "string \<Rightarrow> string \<Rightarrow> string \<Rightarrow> string" where
  "replace old new [] = (if old = [] then new else [])"
| "replace old new (c # cs) =
     (if old = [] then new @ c # replace old new cs
      else if take (length old) (c # cs) = old
      then new @ replace old new (drop (length old) (c # cs))
      else c # replace old new cs)"
  by pat_completeness auto
termination
  by (relation "measure (\<lambda>(old, new, s). length s)") auto

text \<open>
  \<^verbatim>\<open>re.sub(r"<[^>]+>", "", s)\<close>.  A match starts at a \<^verbatim>\<open><\<close> that is followed by at
  least one character other than \<^verbatim>\<open>>\<close> and, after the longest run of such
  characters (a newline is one of them), by a \<^verbatim>\<open>>\<close>.
\<close>

function sub_tags :: "string \<Rightarrow> string" where
  "sub_tags [] = []"
| "sub_tags (c # cs) =
     (if c = CHR ''<'' \<and> takeWhile (\<lambda>x. x \<noteq> CHR ''>'') cs \<noteq> []
          \<and> dropWhile (\<lambda>x. x \<noteq> CHR ''>'') cs \<noteq> []
      then sub_tags (tl (dropWhile (\<lambda>x. x \<noteq> CHR ''>'') cs))
      else c # sub_tags cs)"
  by pat_completeness auto
termination
proof (relation "measure length")
  fix c :: char and cs :: string
  have "length (tl (dropWhile (\<lambda>x. x \<noteq> CHR ''>'') cs)) \<le> length cs"
    using length_dropWhile_le[of "\<lambda>x. x \<noteq> CHR ''>''" cs] by simp
  then show "(tl (dropWhile (\<lambda>x. x \<noteq> CHR ''>'') cs), c # cs) \<in> measure length" by simp
qed auto

text \<open>\<^verbatim>\<open>re.sub(r"\n{3,}", "\n\n", s)\<close>: a maximal run of three or more newlines becomes two.\<close>

function sub_newlines :: "string \<Rightarrow> string" where
  "sub_newlines [] = []"
| "sub_newlines (c # cs) =
     (if c = NL
      then (if 2 \<le> length (takeWhile (\<lambda>x. x = NL) cs) then [NL, NL]
            else c # takeWhile (\<lambda>x. x = NL) cs)
             @ sub_newlines (dropWhile (\<lambda>x. x = NL) cs)
      else c # sub_newlines cs)"
  by pat_completeness auto
termination
  by (relation "measure length") (auto intro: le_imp_less_Suc length_dropWhile_le)

text \<open>\<^verbatim>\<open>re.sub(r"[ \t]+", " ", s)\<close>: a maximal run of spaces and tabs becomes one space.\<close>

function sub_blanks :: "string \<Rightarrow> string" where
  "sub_blanks [] = []"
| "sub_blanks (c # cs) =
     (if c = CHR '' '' \<or> c = TAB
      then CHR '' '' # sub_blanks (dropWhile (\<lambda>x. x = CHR '' '' \<or> x = TAB) cs)
      else c # sub_blanks cs)"
  by pat_completeness auto
termination
  by (relation "measure length") (auto intro: le_imp_less_Suc length_dropWhile_le)

text \<open>\<^verbatim>\<open>s.split(d)\<close> for a one-character separator, and \<^verbatim>\<open>sep.join(xs)\<close>.\<close>

fun split_on :: "char \<Rightarrow> string \<Rightarrow> string list" where
  "split_on d [] = [[]]"
| "split_on d (c # cs) =
     (if c = d then [] # split_on d cs
      else (case split_on d cs of [] \<Rightarrow> [[c]] | l # ls \<Rightarrow> (c # l) # ls))"

fun join :: "string \<Rightarrow> string list \<Rightarrow> string" where
  "join sep [] = []"
| "join sep [x] = x"
| "join sep (x # y # ys) = x @ sep @ join sep (y # ys)"

text \<open>\<^verbatim>\<open>re.split(r"\n{2,}", s)\<close>: the separators are the maximal runs of two or more newlines.\<close>

function split_newline_runs :: "string \<Rightarrow> string list" where
  "split_newline_runs [] = [[]]"
| "split_newline_runs (c # cs) =
     (if c = NL \<and> cs \<noteq> [] \<and> hd cs = NL
      then [] # split_newline_runs (dropWhile (\<lambda>x. x = NL) cs)
      else (case split_newline_runs cs of [] \<Rightarrow> [[c]] | l # ls \<Rightarrow> (c # l) # ls))"
  by pat_completeness auto
termination
  by (relation "measure length") (auto intro: le_imp_less_Suc length_dropWhile_le)

text \<open>
  \<^verbatim>\<open>re.split(r"(?<=[.!?])\s+", s)\<close>: a separator is a maximal run of whitespace
  whose preceding character is a full stop, an exclamation mark or a question
  mark.  \<open>prev\<close> is the character before the current position.
\<close>

function split_after_stops :: "char option \<Rightarrow> string \<Rightarrow> string list" where
  "split_after_stops prev [] = [[]]"
| "split_after_stops prev (c # cs) =
     (if isspace c \<and> prev \<in> {Some (CHR ''.''), Some (CHR ''!''), Some (CHR ''?'')}
      then [] # split_after_stops (Some (last (c # takeWhile isspace cs))) (dropWhile isspace cs)
      else (case split_after_stops (Some c) cs of [] \<Rightarrow> [[c]] | l # ls \<Rightarrow> (c # l) # ls))"
  by pat_completeness auto
termination
  by (relation "measure (\<lambda>(p, s). length s)") (auto intro: le_imp_less_Suc length_dropWhile_le)

subsection \<open>Text processor: normalization\<close>

text \<open>
  \<^verbatim>\<open>TextProcessor._remove_html_tags\<close>.  The first six statements replace an entity
  reference by its character.  The listing of \<^verbatim>\<open>text_processor.py\<close> shows four of
  the references already rendered as their characters (\<^verbatim>\<open>html.replace("&", "&")\<close>,
  and a line 38 that is not well-formed Python as shown); they are written here
  as the references the replaced characters stand for: \<^verbatim>\<open>&amp;\<close>, \<^verbatim>\<open>&lt;\<close>, \<^verbatim>\<open>&gt;\<close>
  and \<^verbatim>\<open>&quot;\<close>, next to the two that the listing shows intact, \<^verbatim>\<open>&nbsp;\<close> and
  \<^verbatim>\<open>&#39;\<close>.
\<close>

definition decode_entities :: "string \<Rightarrow> string" where
  "decode_entities html =
     replace ''&#39;'' [CHR 0x27]
       (replace ''&quot;'' [CHR 0x22]
         (replace ''&gt;'' ''>''
           (replace ''&lt;'' ''<''
             (replace ''&amp;'' ''&''
               (replace ''&nbsp;'' '' '' html)))))"

definition remove_html_tags :: "string \<Rightarrow> string" where
  "remove_html_tags html = replace [NL, NL] [NL] (sub_tags (decode_entities html))"

text \<open>\<^verbatim>\<open>TextProcessor._clean_whitespace\<close>.\<close>

definition clean_whitespace :: "string \<Rightarrow> string" where
  "clean_whitespace text =
     join [NL] (filter (\<lambda>line. line \<noteq> [])
        (map strip (split_on NL (sub_blanks (sub_newlines text)))))"

text \<open>
  \<^verbatim>\<open>TextProcessor.extract_text\<close>.  Of the page dictionary only the path
  \<^verbatim>\<open>body.storage.value\<close> is read; each level may be missing.
\<close>

record page_storage =
  storage_value :: "string option"

record page_body =
  body_storage :: "page_storage option"

record confluence_page =
  page_body :: "page_body option"

definition html_content :: "confluence_page \<Rightarrow> string" where
  "html_content page =
     (let body = (case page_body page of None \<Rightarrow> \<lparr>body_storage = None\<rparr> | Some b \<Rightarrow> b);
          storage = (case body_storage body of None \<Rightarrow> \<lparr>storage_value = None\<rparr> | Some s \<Rightarrow> s)
      in (case storage_value storage of None \<Rightarrow> [] | Some v \<Rightarrow> v))"

definition extract_text :: "confluence_page \<Rightarrow> string" where
  "extract_text page =
     (if html_content page = [] then []
      else strip (clean_whitespace (remove_html_tags (html_content page))))"

subsection \<open>Text processor: segmentation\<close>

record text_processor =
  chunk_size :: int
  chunk_overlap :: int

text \<open>\<^verbatim>\<open>TextProcessor._split_by_paragraphs\<close> and \<^verbatim>\<open>TextProcessor._split_by_sentences\<close>.\<close>

definition split_by_paragraphs :: "string \<Rightarrow> string list" where
  "split_by_paragraphs text =
     map strip (filter (\<lambda>p. strip p \<noteq> []) (split_newline_runs text))"

definition split_by_sentences :: "string \<Rightarrow> string list" where
  "split_by_sentences text =
     map strip (filter (\<lambda>s. strip s \<noteq> []) (split_after_stops None text))"

text \<open>\<^verbatim>\<open>TextProcessor._split_long_text\<close>: the loop over the sentences, on the list \<^verbatim>\<open>chunks\<close>.\<close>

fun split_long_text_loop :: "int \<Rightarrow> string list \<Rightarrow> string list \<Rightarrow> string list" where
  "split_long_text_loop csize [] chunks = chunks"
| "split_long_text_loop csize (s # ss) chunks =
     (let sentence = strip s in
      if chunks = [] then split_long_text_loop csize ss (chunks @ [sentence])
      else let last_chunk = last chunks in
        if int (length last_chunk) + int (length sentence) + 1 > csize
        then split_long_text_loop csize ss (chunks @ [sentence])
        else split_long_text_loop csize ss (butlast chunks @ [last_chunk @ '' '' @ sentence]))"

definition split_long_text :: "string \<Rightarrow> int \<Rightarrow> string list" where
  "split_long_text text csize = split_long_text_loop csize (split_by_sentences text) []"

text \<open>
  \<^verbatim>\<open>TextProcessor.split_text\<close>: the loop over the paragraphs, on the state
  \<^verbatim>\<open>(chunks, current_chunk)\<close>, then the method itself.  An argument that is
  \<^verbatim>\<open>None\<close> or \<open>0\<close> is replaced by the field of the instance.
\<close>

fun split_text_loop ::
  "int \<Rightarrow> int \<Rightarrow> string list \<Rightarrow> string list \<times> string \<Rightarrow> string list \<times> string" where
  "split_text_loop csize overlap [] (chunks, current_chunk) = (chunks, current_chunk)"
| "split_text_loop csize overlap (p # ps) (chunks, current_chunk) =
     (let paragraph = strip p in
      if int (length paragraph) > csize then
        split_text_loop csize overlap ps
          ((if current_chunk \<noteq> [] then chunks @ [current_chunk] else chunks)
             @ split_long_text paragraph csize, [])
      else if int (length current_chunk) + int (length paragraph) + 2 > csize then
        (let chunks' = (if current_chunk \<noteq> [] then chunks @ [current_chunk] else chunks) in
         if overlap > 0 \<and> chunks' \<noteq> []
         then split_text_loop csize overlap ps
                (chunks', slice_last overlap (last chunks') @ '' '' @ paragraph)
         else split_text_loop csize overlap ps (chunks', paragraph))
      else if current_chunk \<noteq> []
        then split_text_loop csize overlap ps (chunks, current_chunk @ [NL, NL] @ paragraph)
        else split_text_loop csize overlap ps (chunks, paragraph))"

definition split_text ::
  "text_processor \<Rightarrow> string \<Rightarrow> int option \<Rightarrow> int option \<Rightarrow> string list" where
  "split_text self text chunk_size_arg chunk_overlap_arg =
     (let csize = or_int chunk_size_arg (chunk_size self);
          overlap = or_int chunk_overlap_arg (chunk_overlap self) in
      if text = [] then []
      else let paragraphs = split_by_paragraphs text in
        if paragraphs = [] then []
        else (case split_text_loop csize overlap paragraphs ([], []) of
                (chunks, current_chunk) \<Rightarrow>
                  if current_chunk \<noteq> [] then chunks @ [current_chunk] else chunks))"

subsection \<open>Ingestion pipeline\<close>

text \<open>
  \<^verbatim>\<open>KnowledgeSourceMCPServer._index_documents\<close>.  An index entry is the dictionary
  appended to \<^verbatim>\<open>chunks\<close>, with the metadata flattened; \<open>'v\<close> is the type of an
  embedding.  \<open>string_of_nat\<close> is \<^verbatim>\<open>str(i)\<close> for the chunk index.
\<close>

record 'v index_entry =
  entry_id :: string
  entry_values :: 'v
  entry_page_id :: string
  entry_page_title :: string
  entry_space :: string
  entry_url :: string
  entry_chunk_index :: nat
  entry_text :: string

function string_of_nat :: "nat \<Rightarrow> string" where
  "string_of_nat n =
     (if n < 10 then [char_of (48 + n)]
      else string_of_nat (n div 10) @ [char_of (48 + n mod 10)])"
  by pat_completeness auto
termination
  by (relation "measure id") auto

text \<open>
  A call \<^verbatim>\<open>split_text(text, **kwargs)\<close>.  The method is declared as
  \<^verbatim>\<open>split_text(self, text, chunk_size=None, chunk_overlap=None)\<close>; Python binds a
  keyword argument to the parameter of that name and raises \<^verbatim>\<open>TypeError\<close> when
  the method has no such parameter.
\<close>

definition split_text_kw ::
  "text_processor \<Rightarrow> string \<Rightarrow> (string \<times> int) list \<Rightarrow> py_exception + string list" where
  "split_text_kw self text kwargs =
     (case filter (\<lambda>(k, v). k \<notin> {''chunk_size'', ''chunk_overlap''}) kwargs of
        (k, v) # _ \<Rightarrow>
          Inl (TypeError (''TextProcessor.split_text() got an unexpected keyword argument ''
                 @ [CHR 0x27] @ k @ [CHR 0x27]))
      | [] \<Rightarrow>
          Inr (split_text self text (map_of kwargs ''chunk_size'') (map_of kwargs ''chunk_overlap'')))"

text \<open>
  The inner loop \<^verbatim>\<open>for i, chunk in enumerate(text_chunks)\<close>: \<open>generate_embedding\<close> is
  the embedding call, which may raise.
\<close>

fun index_chunks ::
  "(string \<Rightarrow> py_exception + 'v) \<Rightarrow> document \<Rightarrow> nat \<Rightarrow> string list
     \<Rightarrow> py_exception + 'v index_entry list" where
  "index_chunks generate_embedding doc i [] = Inr []"
| "index_chunks generate_embedding doc i (chunk # rest) =
     (case generate_embedding chunk of
        Inl e \<Rightarrow> Inl e
      | Inr embedding \<Rightarrow>
          (case index_chunks generate_embedding doc (Suc i) rest of
             Inl e \<Rightarrow> Inl e
           | Inr entries \<Rightarrow>
               Inr (\<lparr> entry_id = doc_id doc @ ''_'' @ string_of_nat i,
                      entry_values = embedding,
                      entry_page_id = doc_id doc,
                      entry_page_title = doc_title doc,
                      entry_space = doc_space doc,
                      entry_url = doc_url doc,
                      entry_chunk_index = i,
                      entry_text = take 200 chunk \<rparr> # entries)))"

text \<open>The outer loop \<^verbatim>\<open>for doc in documents\<close>, on the list \<^verbatim>\<open>chunks\<close>.\<close>

fun index_documents_loop ::
  "text_processor \<Rightarrow> (string \<Rightarrow> py_exception + 'v) \<Rightarrow> document list \<Rightarrow> 'v index_entry list
     \<Rightarrow> py_exception + 'v index_entry list" where
  "index_documents_loop tp generate_embedding [] chunks = Inr chunks"
| "index_documents_loop tp generate_embedding (doc # docs) chunks =
     (case split_text_kw tp (doc_content doc) [(''chunk_size'', 512), (''overlap'', 50)] of
        Inl e \<Rightarrow> Inl e
      | Inr text_chunks \<Rightarrow>
          (case index_chunks generate_embedding doc 0 text_chunks of
             Inl e \<Rightarrow> Inl e
           | Inr entries \<Rightarrow> index_documents_loop tp generate_embedding docs (chunks @ entries)))"

text \<open>
  The method: \<open>upserts\<close> is the list of the \<^verbatim>\<open>upsert\<close> calls the vector client has
  received, each with its argument (\<^verbatim>\<open>VectorStoreClient.upsert\<close> itself catches what
  the index raises).  The result is what the method returns or raises, with the
  calls made.
\<close>

definition index_documents ::
  "text_processor \<Rightarrow> (string \<Rightarrow> py_exception + 'v) \<Rightarrow> document list \<Rightarrow> 'v index_entry list list
     \<Rightarrow> (py_exception + nat) \<times> 'v index_entry list list" where
  "index_documents tp generate_embedding documents upserts =
     (case index_documents_loop tp generate_embedding documents [] of
        Inl e \<Rightarrow> (Inl e, upserts)
      | Inr chunks \<Rightarrow>
          (Inr (length chunks), if chunks \<noteq> [] then upserts @ [chunks] else upserts))"

subsection \<open>Tool-call surface\<close>

text \<open>
  \<^verbatim>\<open>call_tool\<close> and \<^verbatim>\<open>_get_recent_updates\<close>.  Arguments and results are JSON values.
  The four handlers reach remote services, so what they return or raise is a
  parameter: \<open>recent_pages\<close> is the part of \<^verbatim>\<open>_get_recent_updates\<close> after the date
  filter (the search request and the list built from its results), and
  \<open>mktime\<close> is \<^verbatim>\<open>int(time.mktime(...))\<close>.  The exceptions are those derived from
  \<^verbatim>\<open>Exception\<close>, which is what \<^verbatim>\<open>except Exception\<close> catches.
\<close>

datatype json =
    JNull
  | JBool bool
  | JInt int
  | JFloat real
  | JStr string
  | JList "json list"
  | JObj "(string \<times> json) list"

record py_datetime =
  dt_year :: int
  dt_month :: int
  dt_day :: int

record tool_handlers =
  search_knowledge :: "json \<Rightarrow> json \<Rightarrow> json \<Rightarrow> py_exception + json"
  sync_knowledge_source :: "json \<Rightarrow> json \<Rightarrow> py_exception + json"
  get_space_info :: "py_exception + json"
  recent_pages :: "int \<Rightarrow> json \<Rightarrow> py_exception + json"
  mktime :: "py_datetime \<Rightarrow> py_exception + int"

definition days_in_month :: "int \<Rightarrow> int \<Rightarrow> int" where
  "days_in_month y m =
     (if m = 2 then (if y mod 4 = 0 \<and> (y mod 100 \<noteq> 0 \<or> y mod 400 = 0) then 29 else 28)
      else if m \<in> {4, 6, 9, 11} then 30 else 31)"

text \<open>\<^verbatim>\<open>dt.replace(day=d)\<close> raises \<^verbatim>\<open>ValueError\<close> unless \<open>d\<close> is a day of the month of \<open>dt\<close>.\<close>

definition replace_day :: "py_datetime \<Rightarrow> int \<Rightarrow> py_exception + py_datetime" where
  "replace_day dt d =
     (if 1 \<le> d \<and> d \<le> days_in_month (dt_year dt) (dt_month dt) then Inr (dt\<lparr>dt_day := d\<rparr>)
      else Inl (ValueError ''day is out of range for month''))"

text \<open>The integer a JSON value stands for in \<^verbatim>\<open>day - days\<close>, if it is one (\<^verbatim>\<open>bool\<close> is an \<^verbatim>\<open>int\<close>).\<close>

fun json_int :: "json \<Rightarrow> int option" where
  "json_int (JInt n) = Some n"
| "json_int (JBool b) = Some (if b then 1 else 0)"
| "json_int _ = None"

definition get_recent_updates ::
  "tool_handlers \<Rightarrow> py_datetime \<Rightarrow> json \<Rightarrow> json \<Rightarrow> py_exception + json" where
  "get_recent_updates h now days limit =
     (case json_int days of
        None \<Rightarrow> Inl (TypeError ''unsupported operand type(s) for -'')
      | Some d \<Rightarrow>
          (case replace_day now (dt_day now - d) of
             Inl e \<Rightarrow> Inl e
           | Inr dt \<Rightarrow>
               (case mktime h dt of
                  Inl e \<Rightarrow> Inl e
                | Inr date_filter \<Rightarrow> recent_pages h date_filter limit)))"

text \<open>The body of the \<^verbatim>\<open>try\<close> block of \<^verbatim>\<open>call_tool\<close>, up to the value of \<^verbatim>\<open>result\<close>.\<close>

definition tool_result ::
  "tool_handlers \<Rightarrow> py_datetime \<Rightarrow> string \<Rightarrow> (string \<rightharpoonup> json) \<Rightarrow> py_exception + json" where
  "tool_result h now name arguments =
     (if name = ''search_knowledge'' then
        (case arguments ''query'' of
           None \<Rightarrow> Inl (KeyError ''query'')
         | Some query \<Rightarrow>
             search_knowledge h query (dict_get arguments ''space_key'' JNull)
               (dict_get arguments ''top_k'' (JInt 5)))
      else if name = ''sync_knowledge_source'' then
        sync_knowledge_source h (dict_get arguments ''space_key'' JNull)
          (dict_get arguments ''full_sync'' (JBool False))
      else if name = ''get_space_info'' then get_space_info h
      else if name = ''get_recent_updates'' then
        get_recent_updates h now (dict_get arguments ''days'' (JInt 7))
          (dict_get arguments ''limit'' (JInt 20))
      else Inr (JObj [(''error'', JStr (''Unknown tool: '' @ name))]))"

text \<open>
  \<^verbatim>\<open>call_tool\<close>: the \<^verbatim>\<open>try\<close> block with its \<^verbatim>\<open>except Exception\<close> clause.  The value is
  the JSON payload that is serialized into the one \<^verbatim>\<open>TextContent\<close> returned; \<open>Inl\<close>
  would be an exception leaving the handler.
\<close>

definition call_tool ::
  "tool_handlers \<Rightarrow> py_datetime \<Rightarrow> string \<Rightarrow> (string \<rightharpoonup> json) \<Rightarrow> py_exception + json" where
  "call_tool h now name arguments =
     (case tool_result h now name arguments of
        Inr result \<Rightarrow> Inr result
      | Inl e \<Rightarrow> Inr (JObj [(''error'', JStr (exception_str e))]))"

text \<open>A payload of the shape \<^verbatim>\<open>{"error": message}\<close>.\<close>

fun error_payload :: "json \<Rightarrow> bool" where
  "error_payload (JObj [(k, JStr message)]) = (k = ''error'')"
| "error_payload _ = False"

subsection \<open>Normalization as the specification words it\<close>




subsection \<open>Shapes of chunks\<close>


definition seeded :: "int \<Rightarrow> string \<Rightarrow> string \<Rightarrow> bool" where
  "seeded overlap a b \<longleftrightarrow> prefix (slice_last overlap a @ '' '') b"

subsection \<open>Lines of a text\<close>

text \<open>
  For the proofs about whitespace cleaning: the first line of a text, the
  non-empty ones among the later lines, and all non-empty lines; and the
  characters the pattern \<^verbatim>\<open>[ \t]\<close> matches.
\<close>

definition first_line :: "string \<Rightarrow> string" where
  "first_line s = hd (split_on NL s)"

definition later_lines :: "string \<Rightarrow> string list" where
  "later_lines s = filter (\<lambda>l. l \<noteq> []) (tl (split_on NL s))"

definition nonempty_lines :: "string \<Rightarrow> string list" where
  "nonempty_lines s = filter (\<lambda>l. l \<noteq> []) (split_on NL s)"

abbreviation blank :: "char \<Rightarrow> bool" where
  "blank x \<equiv> x = CHR '' '' \<or> x = TAB"

subsection \<open>Markup in a text\<close>

text \<open>
  For the proofs about normalization.  \<open>tagged s\<close>: some \<^verbatim>\<open><\<close> of \<open>s\<close> starts a
  match of the tag pattern, that is, its next character is not \<^verbatim>\<open>>\<close> and a \<^verbatim>\<open>>\<close>
  comes later.  \<open>pending s\<close>: some \<^verbatim>\<open><\<close> of \<open>s\<close> is last or followed by a character
  other than \<^verbatim>\<open>>\<close>, so that a \<^verbatim>\<open>>\<close> after \<open>s\<close> would close a tag.  \<open>entities\<close> are the
  references \<open>decode_entities\<close> replaces.
\<close>

abbreviation LT :: char where "LT \<equiv> CHR ''<''"
abbreviation GT :: char where "GT \<equiv> CHR ''>''"
abbreviation SP :: char where "SP \<equiv> CHR '' ''"

fun tagged :: "string \<Rightarrow> bool" where
  "tagged [] = False"
| "tagged (c # cs) = ((c = LT \<and> cs \<noteq> [] \<and> hd cs \<noteq> GT \<and> GT \<in> set cs) \<or> tagged cs)"

fun pending :: "string \<Rightarrow> bool" where
  "pending [] = False"
| "pending (c # cs) = ((c = LT \<and> (cs = [] \<or> hd cs \<noteq> GT)) \<or> pending cs)"

definition entities :: "string list" where
  "entities = [''&nbsp;'', ''&amp;'', ''&lt;'', ''&gt;'', ''&quot;'', ''&#39;'']"

section \<open>Facts about the string operations\<close>

lemma strip_decomp: "\<exists>a b. s = a @ strip s @ b \<and> (\<forall>x\<in>set a. isspace x) \<and> (\<forall>x\<in>set b. isspace x)"
proof -
  let ?t = "dropWhile isspace s"
  have 1: "s = takeWhile isspace s @ ?t" by simp
  have 2: "rev ?t = takeWhile isspace (rev ?t) @ dropWhile isspace (rev ?t)" by simp
  then have "?t = rev (dropWhile isspace (rev ?t)) @ rev (takeWhile isspace (rev ?t))"
    by (metis rev_append rev_rev_ident)
  then have "s = takeWhile isspace s @ strip s @ rev (takeWhile isspace (rev ?t))"
    unfolding strip_def using 1 by metis
  moreover have "\<forall>x\<in>set (takeWhile isspace s). isspace x" by (meson set_takeWhileD)
  moreover have "\<forall>x\<in>set (rev (takeWhile isspace (rev ?t))). isspace x"
    by (metis set_rev set_takeWhileD)
  ultimately show ?thesis by blast
qed

lemma strip_ends: "strip s \<noteq> [] \<Longrightarrow> \<not> isspace (hd (strip s)) \<and> \<not> isspace (last (strip s))"
proof -
  assume ne: "strip s \<noteq> []"
  let ?t = "dropWhile isspace s"
  let ?u = "dropWhile isspace (rev ?t)"
  have u: "strip s = rev ?u" by (simp add: strip_def)
  with ne have une: "?u \<noteq> []" by simp
  then have "\<not> isspace (hd ?u)" by (metis hd_dropWhile)
  then have l: "\<not> isspace (last (strip s))" using u une by (simp add: last_rev)
  have tne: "?t \<noteq> []" using une by (metis dropWhile.simps(1) rev_is_Nil_conv)
  then have ht: "\<not> isspace (hd ?t)" by (metis hd_dropWhile)
  have "rev ?t = takeWhile isspace (rev ?t) @ ?u" by simp
  then have "?t = rev ?u @ rev (takeWhile isspace (rev ?t))" by (metis rev_append rev_rev_ident)
  then have "hd ?t = hd (rev ?u)" using une by (metis hd_append2 rev_is_Nil_conv)
  with ht u l show ?thesis by simp
qed

lemma strip_fixed: "s = [] \<or> (\<not> isspace (hd s) \<and> \<not> isspace (last s)) \<Longrightarrow> strip s = s"
proof (cases "s = []")
  case True then show ?thesis by (simp add: strip_def)
next
  case False
  assume "s = [] \<or> (\<not> isspace (hd s) \<and> \<not> isspace (last s))"
  with False have h: "\<not> isspace (hd s)" and l: "\<not> isspace (last s)" by auto
  from h False have 1: "dropWhile isspace s = s" by (cases s) auto
  from l False have "\<not> isspace (hd (rev s))" by (simp add: hd_rev)
  with False have 2: "dropWhile isspace (rev s) = rev s" by (cases "rev s") auto
  show ?thesis by (simp add: strip_def 1 2)
qed

lemma strip_idem: "strip (strip s) = strip s"
  using strip_ends[of s] strip_fixed[of "strip s"] by blast

lemma strip_Nil [simp]: "strip [] = []" by (simp add: strip_def)

lemma length_strip: "length (strip s) \<le> length s"
proof -
  obtain a b where "s = a @ strip s @ b" using strip_decomp by blast
  then have "length s = length a + length (strip s) + length b" by (metis length_append add.assoc)
  then show ?thesis by simp
qed

lemma set_strip: "set (strip s) \<subseteq> set s"
proof -
  obtain a b where "s = a @ strip s @ b" using strip_decomp by blast
  then have "set s = set a \<union> set (strip s) \<union> set b" by (metis set_append Un_assoc)
  then show ?thesis by blast
qed

lemma split_by_paragraphs_stripped:
  "p \<in> set (split_by_paragraphs text) \<Longrightarrow> strip p = p \<and> p \<noteq> []"
  by (auto simp: split_by_paragraphs_def strip_idem)



section \<open>Pagination\<close>

lemma loop_reaches_short_page:
  "length (fetch (start + 100 * n)) < 100 \<Longrightarrow>
   \<forall>k<n. 100 \<le> length (fetch (start + 100 * k)) \<Longrightarrow>
   get_space_pages_loop fetch start acc =
     Some (acc @ concat (map (\<lambda>k. fetch (start + 100 * k)) [0..<Suc n]))"
proof (induction n arbitrary: start acc)
  case 0
  then show ?case
    by (subst get_space_pages_loop.simps) (simp add: Let_def)
next
  case (Suc n)
  have full: "100 \<le> length (fetch start)"
    using Suc.prems(2) by (metis add.right_neutral mult_zero_right zero_less_Suc)
  then have nonempty: "fetch start \<noteq> []" by auto
  have short': "length (fetch ((start + 100) + 100 * n)) < 100"
    using Suc.prems(1) by (simp add: algebra_simps)
  have full': "\<forall>k<n. 100 \<le> length (fetch ((start + 100) + 100 * k))"
  proof (intro allI impI)
    fix k assume "k < n"
    then have "Suc k < Suc n" by simp
    with Suc.prems(2) have "100 \<le> length (fetch (start + 100 * Suc k))" by blast
    then show "100 \<le> length (fetch ((start + 100) + 100 * k))" by (simp add: algebra_simps)
  qed
  have shift: "map (\<lambda>k. fetch (start + 100 * k)) [0..<Suc (Suc n)] =
        fetch start # map (\<lambda>k. fetch ((start + 100) + 100 * k)) [0..<Suc n]"
  proof -
    have "[0..<Suc (Suc n)] = 0 # map Suc [0..<Suc n]"
      by (metis map_Suc_upt upt_conv_Cons zero_less_Suc)
    then show ?thesis by (simp add: comp_def algebra_simps del: upt_Suc)
  qed
  show ?case
    apply (subst get_space_pages_loop.simps)
    using full nonempty Suc.IH[OF short' full'] shift by (simp add: Let_def del: upt_Suc)
qed

lemma loop_returns_only_after_short_page:
  assumes "get_space_pages_loop fetch start acc = Some r"
  shows "\<exists>k. length (fetch (start + 100 * k)) < 100"
proof (rule get_space_pages_loop.raw_induct
    [where P = "\<lambda>f s a r. \<exists>k. length (f (s + 100 * k)) < 100", OF _ assms])
  fix loop :: "(nat \<Rightarrow> 'a list) \<Rightarrow> nat \<Rightarrow> 'a list \<Rightarrow> 'a list option"
    and f s a y
  assume IH: "\<And>f' s' a' y'. loop f' s' a' = Some y' \<Longrightarrow> \<exists>k. length (f' (s' + 100 * k)) < 100"
    and body: "(let pages = f s in
          if pages = [] then Some a
          else if length pages < 100 then Some (a @ pages)
          else loop f (s + 100) (a @ pages)) = Some y"
  show "\<exists>k. length (f (s + 100 * k)) < 100"
  proof (cases "length (f s) < 100")
    case True
    then have "length (f (s + 100 * 0)) < 100" by simp
    then show ?thesis by blast
  next
    case False
    with body have "loop f (s + 100) (a @ f s) = Some y"
      by (auto simp: Let_def split: if_splits)
    from IH[OF this] obtain k where "length (f (s + 100 + 100 * k)) < 100" by blast
    then have "length (f (s + 100 * Suc k)) < 100" by (simp add: algebra_simps)
    then show ?thesis by blast
  qed
qed

text \<open>
  C7.  \<open>get_space_pages\<close> asks for pages of 100 at the offsets 0, 100, 200, ...
  If the page at offset \<open>100 * n\<close> is the first with fewer than 100 results (an
  empty page included), the loop returns, and its result is the concatenation
  of the pages at the offsets \<open>0, 100, ..., 100 * n\<close> in that order.  If no page
  is short, the loop never returns: a short page is exactly what ends it.
\<close>

theorem get_space_pages_short_page:
  "(length (fetch (100 * n)) < 100 \<and> (\<forall>k<n. 100 \<le> length (fetch (100 * k)))
      \<longrightarrow> get_space_pages fetch = Some (concat (map (\<lambda>k. fetch (100 * k)) [0..<Suc n])))
   \<and> ((\<forall>k. 100 \<le> length (fetch (100 * k))) \<longrightarrow> get_space_pages fetch = None)"
proof (intro conjI impI)
  assume "length (fetch (100 * n)) < 100 \<and> (\<forall>k<n. 100 \<le> length (fetch (100 * k)))"
  then show "get_space_pages fetch = Some (concat (map (\<lambda>k. fetch (100 * k)) [0..<Suc n]))"
    using loop_reaches_short_page[of fetch 0 n "[]"] by (simp add: get_space_pages_def)
next
  assume full: "\<forall>k. 100 \<le> length (fetch (100 * k))"
  show "get_space_pages fetch = None"
  proof (cases "get_space_pages fetch")
    case None
    then show ?thesis .
  next
    case (Some r)
    then obtain k where "length (fetch (0 + 100 * k)) < 100"
      using loop_returns_only_after_short_page[of fetch 0 "[]" r]
      by (auto simp: get_space_pages_def)
    with full show ?thesis by (simp add: not_less[symmetric])
  qed
qed

theorem get_space_pages_short_page_witness:
  "get_space_pages (\<lambda>s. if s = 0 then replicate 100 (7::nat) else [8, 9])
     = Some (replicate 100 7 @ [8, 9])
   \<and> get_space_pages (\<lambda>s. replicate 100 (7::nat)) = None"
proof
  show "get_space_pages (\<lambda>s. if s = 0 then replicate 100 (7::nat) else [8, 9])
     = Some (replicate 100 7 @ [8, 9])"
    using get_space_pages_short_page
      [of "\<lambda>s. if s = 0 then replicate 100 (7::nat) else [8, 9]" 1]
    by simp
  show "get_space_pages (\<lambda>s. replicate 100 (7::nat)) = None"
    using get_space_pages_short_page [of "\<lambda>s. replicate 100 (7::nat)" 0]
    by simp
qed

section \<open>Vector index delete\<close>




section \<open>Merging retrieval results\<close>









section \<open>Segmentation: the size of a chunk\<close>








section \<open>Segmentation: the overlap between chunks\<close>

lemma seeded_extend: "seeded overlap a b \<Longrightarrow> seeded overlap a (b @ c)"
  unfolding seeded_def by (rule prefix_prefix)

lemma successively_snoc:
  "successively P (xs @ [y]) \<longleftrightarrow> successively P xs \<and> (xs = [] \<or> P (last xs) y)"
  by (auto simp: successively_append_iff)

lemma split_text_loop_overlap:
  "split_text_loop csize overlap ps (chunks, cur) = (chunks', cur') \<Longrightarrow>
   0 < overlap \<Longrightarrow>
   \<forall>p\<in>set ps. strip p \<noteq> [] \<and> int (length (strip p)) \<le> csize \<Longrightarrow>
   successively (seeded overlap) (chunks @ [cur]) \<Longrightarrow> (cur = [] \<longrightarrow> chunks = []) \<Longrightarrow>
   successively (seeded overlap) (chunks' @ [cur']) \<and> (cur' = [] \<longrightarrow> chunks' = [])"
proof (induction ps arbitrary: chunks cur)
  case Nil
  then show ?case by simp
next
  case (Cons p ps)
  let ?par = "strip p"
  have par: "?par \<noteq> []" "\<not> int (length ?par) > csize" using Cons.prems(3) by auto
  have rest: "\<forall>p\<in>set ps. strip p \<noteq> [] \<and> int (length (strip p)) \<le> csize"
    using Cons.prems(3) by auto
  show ?case
  proof (cases "int (length cur) + int (length ?par) + 2 > csize")
    case True
    show ?thesis
    proof (cases "cur = []")
      case empty: True
      with Cons.prems(5) have ch: "chunks = []" by simp
      from par True empty ch Cons.prems(1)
      have run: "split_text_loop csize overlap ps ([], ?par) = (chunks', cur')"
        by (auto simp add: Let_def split: if_splits)
      have "successively (seeded overlap) ([] @ [?par])" by simp
      from Cons.IH[OF run Cons.prems(2) rest this] par show ?thesis by simp
    next
      case nonempty: False
      let ?seed = "slice_last overlap cur @ '' '' @ ?par"
      from par True nonempty Cons.prems(1,2)
      have run: "split_text_loop csize overlap ps (chunks @ [cur], ?seed) = (chunks', cur')"
        by (auto simp add: Let_def split: if_splits)
      have "seeded overlap cur ?seed" by (simp add: seeded_def)
      with Cons.prems(4) have "successively (seeded overlap) ((chunks @ [cur]) @ [?seed])"
        by (subst successively_snoc) simp
      from Cons.IH[OF run Cons.prems(2) rest this] show ?thesis by simp
    qed
  next
    case fits: False
    show ?thesis
    proof (cases "cur = []")
      case empty: True
      with Cons.prems(5) have ch: "chunks = []" by simp
      from par fits empty ch Cons.prems(1)
      have run: "split_text_loop csize overlap ps ([], ?par) = (chunks', cur')"
        by (auto simp add: Let_def split: if_splits)
      have "successively (seeded overlap) ([] @ [?par])" by simp
      from Cons.IH[OF run Cons.prems(2) rest this] par show ?thesis by simp
    next
      case nonempty: False
      let ?next = "cur @ [NL, NL] @ ?par"
      from par fits nonempty Cons.prems(1)
      have run: "split_text_loop csize overlap ps (chunks, ?next) = (chunks', cur')"
        by (auto simp add: Let_def split: if_splits)
      have "successively (seeded overlap) (chunks @ [?next])"
        using Cons.prems(4) unfolding successively_snoc by (auto intro: seeded_extend)
      from Cons.IH[OF run Cons.prems(2) rest this] show ?thesis by simp
    qed
  qed
qed

text \<open>
  C6, as the code has it.  When the overlap is positive and no paragraph is
  longer than the chunk size, every chunk after the first starts with the last
  \<open>overlap\<close> characters of the chunk before it (all of that chunk when it is
  shorter), followed by a space.
\<close>

theorem split_text_overlap:
  assumes "0 < or_int chunk_overlap_arg (chunk_overlap self)"
    and "\<forall>p\<in>set (split_by_paragraphs text). int (length p) \<le> or_int chunk_size_arg (chunk_size self)"
  shows "successively
           (\<lambda>a b. prefix (slice_last (or_int chunk_overlap_arg (chunk_overlap self)) a @ '' '') b)
           (split_text self text chunk_size_arg chunk_overlap_arg)"
proof -
  let ?cs = "or_int chunk_size_arg (chunk_size self)"
  let ?ov = "or_int chunk_overlap_arg (chunk_overlap self)"
  obtain chunks' cur' where run:
    "split_text_loop ?cs ?ov (split_by_paragraphs text) ([], []) = (chunks', cur')"
    by (cases "split_text_loop ?cs ?ov (split_by_paragraphs text) ([], [])")
  have ps: "\<forall>p\<in>set (split_by_paragraphs text). strip p \<noteq> [] \<and> int (length (strip p)) \<le> ?cs"
    using assms(2) split_by_paragraphs_stripped by auto
  have "successively (seeded ?ov) ([] @ [[]])" by simp
  from split_text_loop_overlap[OF run assms(1) ps this]
  have inv: "successively (seeded ?ov) (chunks' @ [cur'])" "cur' = [] \<longrightarrow> chunks' = []" by simp_all
  have "successively (seeded ?ov) (split_text self text chunk_size_arg chunk_overlap_arg)"
    using inv by (auto simp: split_text_def Let_def run)
  then show ?thesis unfolding seeded_def .
qed

theorem split_text_overlap_witness:
  "successively (\<lambda>a b. prefix (slice_last 5 a @ '' '') b) [''aaaaaaaa'', ''aaaaa bbbbbbbb'']"
proof -
  have 1: "0 < or_int (Some 5) (chunk_overlap \<lparr>chunk_size = 512, chunk_overlap = 50\<rparr>)"
    by (simp add: or_int_def)
  have 2: "\<forall>p\<in>set (split_by_paragraphs (''aaaaaaaa'' @ [NL, NL] @ ''bbbbbbbb'')).
     int (length p) \<le> or_int (Some 10) (chunk_size \<lparr>chunk_size = 512, chunk_overlap = 50\<rparr>)"
    by code_simp
  have 3: "split_text \<lparr>chunk_size = 512, chunk_overlap = 50\<rparr>
       (''aaaaaaaa'' @ [NL, NL] @ ''bbbbbbbb'') (Some 10) (Some 5)
     = [''aaaaaaaa'', ''aaaaa bbbbbbbb'']"
    by code_simp
  have 4: "or_int (Some 5) (chunk_overlap \<lparr>chunk_size = 512, chunk_overlap = 50\<rparr>) = 5"
    by (simp add: or_int_def)
  from split_text_overlap[OF 1 2] show ?thesis unfolding 3 4 .
qed

text \<open>
  A paragraph longer than the chunk size is cut at sentence ends, and these
  chunks carry no overlap: the claim fails for them.
\<close>

theorem split_text_overlap_counterexample:
  "split_text \<lparr>chunk_size = 512, chunk_overlap = 50\<rparr> ''aaaaaaa. bbbbbbb.'' (Some 10) (Some 3)
     = [''aaaaaaa.'', ''bbbbbbb.'']
   \<and> slice_last 3 ''aaaaaaa.'' = ''aa.''
   \<and> \<not> prefix ''aa.'' ''bbbbbbb.''"
  by code_simp

section \<open>Ingestion\<close>

text \<open>
  C1.  \<open>_index_documents\<close> calls \<open>split_text\<close> with the keyword \<^verbatim>\<open>overlap\<close>, which is
  not a parameter of \<open>split_text\<close> (the parameter is \<^verbatim>\<open>chunk_overlap\<close>).  For every
  non-empty list of documents the call for the first document raises
  \<^verbatim>\<open>TypeError\<close>: nothing is embedded, no upsert is issued and no count is
  returned.  Only the empty list gives the count 0.
\<close>

theorem index_documents_keyword_error:
  "index_documents tp generate_embedding (doc # docs) upserts =
     (Inl (TypeError (''TextProcessor.split_text() got an unexpected keyword argument ''
             @ [CHR 0x27] @ ''overlap'' @ [CHR 0x27])),
      upserts)
   \<and> index_documents tp generate_embedding [] upserts = (Inr 0, upserts)"
  by (simp add: index_documents_def split_text_kw_def)

section \<open>Tool calls\<close>

text \<open>
  C8.  For every tool name and every argument object, \<open>call_tool\<close> returns a
  payload and raises nothing: the payload is the result of the handler, or, when
  the handler or the processing of its arguments raised \<open>e\<close>, the object
  \<^verbatim>\<open>{"error": str(e)}\<close>.  An unknown name gives an error object as well.
\<close>

theorem call_tool_never_raises:
  "\<exists>payload. call_tool h now name arguments = Inr payload
     \<and> (tool_result h now name arguments = Inr payload
        \<or> (\<exists>e. tool_result h now name arguments = Inl e
              \<and> payload = JObj [(''error'', JStr (exception_str e))] \<and> error_payload payload))
     \<and> (name \<notin> {''search_knowledge'', ''sync_knowledge_source'', ''get_space_info'',
                   ''get_recent_updates''} \<longrightarrow> error_payload payload)"
  by (cases "tool_result h now name arguments")
     (auto simp: call_tool_def tool_result_def)

theorem call_tool_never_raises_witness:
  "call_tool
      \<lparr> search_knowledge = (\<lambda>query space_key top_k. Inr (JObj [])),
        sync_knowledge_source = (\<lambda>space_key full_sync. Inr (JObj [])),
        get_space_info = Inr (JList []),
        recent_pages = (\<lambda>date_filter limit. Inr (JList [])),
        mktime = (\<lambda>dt. Inr 0) \<rparr>
      \<lparr>dt_year = 2026, dt_month = 11, dt_day = 4\<rparr> ''list_pages'' Map.empty
     = Inr (JObj [(''error'', JStr ''Unknown tool: list_pages'')])"
  using call_tool_never_raises
    [of "\<lparr> search_knowledge = (\<lambda>query space_key top_k. Inr (JObj [])),
        sync_knowledge_source = (\<lambda>space_key full_sync. Inr (JObj [])),
        get_space_info = Inr (JList []),
        recent_pages = (\<lambda>date_filter limit. Inr (JList [])),
        mktime = (\<lambda>dt. Inr 0) \<rparr>"
        "\<lparr>dt_year = 2026, dt_month = 11, dt_day = 4\<rparr>" "''list_pages''" Map.empty]
  by (auto simp: tool_result_def)

text \<open>
  The date filter of \<^verbatim>\<open>get_recent_updates\<close> subtracts \<open>days\<close> from the day of the
  month; on the 4th with the default of 7 days \<^verbatim>\<open>replace\<close> raises, and the caller
  receives the error object.
\<close>

lemma call_tool_recent_updates_early_in_month:
  "call_tool h \<lparr>dt_year = 2026, dt_month = 11, dt_day = 4\<rparr> ''get_recent_updates'' Map.empty
     = Inr (JObj [(''error'', JStr ''day is out of range for month'')])"
  by (simp add: call_tool_def tool_result_def get_recent_updates_def replace_day_def
        days_in_month_def dict_get_def)

section \<open>Normalized text has no blank line\<close>

lemma split_on_nonempty [simp]: "split_on d s \<noteq> []"
  by (induction s) (auto split: list.splits)

lemma split_on_no_sep: "l \<in> set (split_on d s) \<Longrightarrow> d \<notin> set l"
proof (induction s arbitrary: l)
  case Nil
  then show ?case by simp
next
  case (Cons c cs)
  then show ?case by (cases "split_on d cs") (auto split: if_splits)
qed

lemma hd_join: "y \<noteq> [] \<Longrightarrow> hd (join sep (y # ys)) = hd y"
  by (cases ys) auto

lemma not_sublist_if_absent: "a \<notin> set x \<Longrightarrow> \<not> sublist [a, b] x"
proof
  assume "a \<notin> set x" "sublist [a, b] x"
  then have "set [a, b] \<subseteq> set x" using set_mono_sublist by metis
  with \<open>a \<notin> set x\<close> show False by simp
qed



lemma no_blank_line_join_step:
  assumes x: "NL \<notin> set x" and y: "y \<noteq> []" "NL \<notin> set y"
   and r: "\<not> sublist [NL, NL] (join [NL] (y # ys))" and rne: "join [NL] (y # ys) \<noteq> []"
  shows "\<not> sublist [NL, NL] (join [NL] (x # y # ys))"
proof -
  let ?r = "join [NL] (y # ys)"
  have "hd ?r = hd y" using hd_join[OF y(1)] .
  moreover have "hd y \<in> set y" using y(1) by simp
  ultimately have hr: "hd ?r \<noteq> NL" using y(2) by metis
  have a: "\<not> sublist [NL, NL] x" using x by (rule not_sublist_if_absent)
  have b: "\<not> prefix [NL, NL] (NL # ?r)" using hr rne by (cases ?r) auto
  have c: "\<not> sublist [NL, NL] (NL # ?r)" using r b by (simp add: sublist_Cons_right)
  have d: "\<not> (\<exists>xs1 xs2. [NL, NL] = xs1 @ xs2 \<and> suffix xs1 x \<and> prefix xs2 (NL # ?r))"
  proof
    assume "\<exists>xs1 xs2. [NL, NL] = xs1 @ xs2 \<and> suffix xs1 x \<and> prefix xs2 (NL # ?r)"
    then obtain xs1 xs2 where e: "[NL, NL] = xs1 @ xs2" "suffix xs1 x" "prefix xs2 (NL # ?r)"
      by blast
    show False
    proof (cases "xs1 = []")
      case True
      with e(1) have "xs2 = [NL, NL]" by simp
      with e(3) b show False by simp
    next
      case False
      then have "hd xs1 = hd (xs1 @ xs2)" by simp
      then have "hd xs1 = NL" using e(1) by (metis list.sel(1))
      with False have "NL \<in> set xs1" by (metis hd_in_set)
      moreover have "set xs1 \<subseteq> set x" using e(2) by (rule set_mono_suffix)
      ultimately show False using x by blast
    qed
  qed
  have e: "join [NL] (x # y # ys) = x @ (NL # ?r)" by simp
  have "\<not> sublist [NL, NL] (x @ (NL # ?r))"
  proof
    assume "sublist [NL, NL] (x @ (NL # ?r))"
    then have "sublist [NL, NL] x \<or> sublist [NL, NL] (NL # ?r) \<or>
      (\<exists>xs1 xs2. [NL, NL] = xs1 @ xs2 \<and> suffix xs1 x \<and> prefix xs2 (NL # ?r))"
      by (rule iffD1[OF sublist_append])
    then show False
    proof (elim disjE)
      assume "sublist [NL, NL] x" with a show False ..
    next
      assume "sublist [NL, NL] (NL # ?r)" with c show False ..
    next
      assume "\<exists>xs1 xs2. [NL, NL] = xs1 @ xs2 \<and> suffix xs1 x \<and> prefix xs2 (NL # ?r)"
      with d show False ..
    qed
  qed
  then show ?thesis unfolding e .
qed

lemma no_blank_line_join:
  "\<forall>x\<in>set xs. x \<noteq> [] \<and> NL \<notin> set x \<Longrightarrow> \<not> sublist [NL, NL] (join [NL] xs)"
proof (induction xs rule: induct_list012)
  case 1
  then show ?case by simp
next
  case (2 x)
  then show ?case by (simp add: not_sublist_if_absent)
next
  case (3 x y ys)
  have x: "NL \<notin> set x" and y: "y \<noteq> []" "NL \<notin> set y" using 3(3) by auto
  have r: "\<not> sublist [NL, NL] (join [NL] (y # ys))" using 3(2,3) by simp
  have rne: "join [NL] (y # ys) \<noteq> []" using y by (cases ys) auto
  show ?case by (rule no_blank_line_join_step[OF x y r rne])
qed
lemma sublist_strip: "sublist (strip s) s"
  using strip_decomp[of s] by (auto simp: sublist_def)

lemma not_sublist_strip: "\<not> sublist xs s \<Longrightarrow> \<not> sublist xs (strip s)"
  using sublist_strip[of s] sublist_order.order_trans[of xs "strip s" s] by blast

lemma clean_whitespace_lines:
  "x \<in> set (filter (\<lambda>line. line \<noteq> []) (map strip (split_on NL s))) \<Longrightarrow> x \<noteq> [] \<and> NL \<notin> set x"
proof -
  assume "x \<in> set (filter (\<lambda>line. line \<noteq> []) (map strip (split_on NL s)))"
  then obtain l where l: "l \<in> set (split_on NL s)" "x = strip l" "x \<noteq> []" by auto
  from split_on_no_sep[OF l(1)] set_strip[of l] l(2) have "NL \<notin> set x" by blast
  with l(3) show ?thesis by simp
qed

lemma no_blank_line_clean_whitespace: "\<not> sublist [NL, NL] (clean_whitespace text)"
  unfolding clean_whitespace_def
  by (rule no_blank_line_join) (use clean_whitespace_lines in blast)

lemma split_newline_runs_single: "\<not> sublist [NL, NL] s \<Longrightarrow> split_newline_runs s = [s]"
proof (induction s rule: split_newline_runs.induct)
  case 1
  then show ?case by simp
next
  case (2 c cs)
  have no: "\<not> (c = NL \<and> cs \<noteq> [] \<and> hd cs = NL)"
  proof
    assume "c = NL \<and> cs \<noteq> [] \<and> hd cs = NL"
    then have "prefix [NL, NL] (c # cs)" by (cases cs) auto
    with 2(3) show False by (auto simp add: sublist_Cons_right)
  qed
  have "\<not> sublist [NL, NL] cs" using 2(3) by (simp add: sublist_Cons_right)
  with 2(2) no have "split_newline_runs cs = [cs]" by blast
  with no show ?case by auto
qed

text \<open>
  C10.  The text \<open>extract_text\<close> returns never holds two newline characters in
  a row, so splitting it at runs of two or more newlines gives at most one
  paragraph.
\<close>

theorem extract_text_no_blank_line:
  "\<not> sublist [NL, NL] (extract_text page)
   \<and> length (split_by_paragraphs (extract_text page)) \<le> 1"
proof -
  have a: "\<not> sublist [NL, NL] (extract_text page)"
  proof (cases "html_content page = []")
    case True
    then show ?thesis by (simp add: extract_text_def)
  next
    case False
    have "\<not> sublist [NL, NL] (strip (clean_whitespace (remove_html_tags (html_content page))))"
      by (rule not_sublist_strip) (rule no_blank_line_clean_whitespace)
    with False show ?thesis by (simp add: extract_text_def)
  qed
  then have "split_newline_runs (extract_text page) = [extract_text page]"
    by (rule split_newline_runs_single)
  then have "length (split_by_paragraphs (extract_text page)) \<le> 1"
    by (simp add: split_by_paragraphs_def)
  with a show ?thesis by simp
qed

section \<open>Normalization\<close>

subsection \<open>Lines\<close>

lemma split_on_NL_Cons:
  "split_on NL (NL # t) = [] # split_on NL t"
  "c \<noteq> NL \<Longrightarrow> split_on NL (c # t) = (c # hd (split_on NL t)) # tl (split_on NL t)"
  by (simp, cases "split_on NL t") (use split_on_nonempty in auto)

lemma nonempty_lines_eq:
  "nonempty_lines s = (if first_line s = [] then later_lines s else first_line s # later_lines s)"
proof -
  have "split_on NL s = hd (split_on NL s) # tl (split_on NL s)" by simp
  then have "nonempty_lines s = filter (\<lambda>l. l \<noteq> []) (first_line s # tl (split_on NL s))"
    unfolding nonempty_lines_def first_line_def by metis
  then show ?thesis by (simp add: later_lines_def)
qed

lemma lines_Cons_NL: "first_line (NL # t) = []" "later_lines (NL # t) = nonempty_lines t"
  by (simp_all add: first_line_def later_lines_def nonempty_lines_def)

lemma lines_Cons_other:
  "c \<noteq> NL \<Longrightarrow> first_line (c # t) = c # first_line t"
  "c \<noteq> NL \<Longrightarrow> later_lines (c # t) = later_lines t"
  by (simp_all add: first_line_def later_lines_def split_on_NL_Cons(2) del: split_on.simps)

lemma same_lines_Cons:
  assumes "first_line a = first_line b" "later_lines a = later_lines b"
  shows "first_line (c # a) = first_line (c # b) \<and> later_lines (c # a) = later_lines (c # b)"
proof (cases "c = NL")
  case True
  then show ?thesis using assms by (simp add: lines_Cons_NL nonempty_lines_eq)
next
  case False
  then show ?thesis using assms by (simp add: lines_Cons_other)
qed

lemma lines_NL_NL:
  "first_line (NL # NL # t) = first_line (NL # t) \<and> later_lines (NL # NL # t) = later_lines (NL # t)"
  by (simp add: lines_Cons_NL nonempty_lines_eq)

lemma lines_NL_run:
  "\<forall>x\<in>set run. x = NL \<Longrightarrow>
   first_line (NL # run @ t) = first_line (NL # t) \<and> later_lines (NL # run @ t) = later_lines (NL # t)"
proof (induction run)
  case Nil
  then show ?case by simp
next
  case (Cons r run)
  have r: "r = NL" using Cons.prems by (meson list.set_intros(1))
  have "\<forall>x\<in>set run. x = NL" using Cons.prems by (meson list.set_intros(2))
  from Cons.IH[OF this] lines_NL_NL[of "run @ t"] show ?case unfolding r by simp
qed

lemma replace_NL_NL_simps:
  "replace [NL, NL] [NL] (NL # NL # r) = NL # replace [NL, NL] [NL] r"
  "c \<noteq> NL \<Longrightarrow> replace [NL, NL] [NL] (c # cs) = c # replace [NL, NL] [NL] cs"
  "replace [NL, NL] [NL] [NL] = [NL]"
  "d \<noteq> NL \<Longrightarrow> replace [NL, NL] [NL] (NL # d # cs) = NL # replace [NL, NL] [NL] (d # cs)"
  by simp_all

lemma lines_replace:
  "first_line (replace [NL, NL] [NL] s) = first_line s
   \<and> later_lines (replace [NL, NL] [NL] s) = later_lines s"
proof (induction s rule: length_induct)
  case (1 s)
  show ?case
  proof (cases s)
    case Nil
    then show ?thesis by simp
  next
    case (Cons c cs)
    show ?thesis
    proof (cases "c = NL \<and> cs \<noteq> [] \<and> hd cs = NL")
      case True
      then obtain r where r: "c = NL" "cs = NL # r" by (cases cs) auto
      have "length r < length s" using Cons r by simp
      with 1 have "first_line (replace [NL, NL] [NL] r) = first_line r
        \<and> later_lines (replace [NL, NL] [NL] r) = later_lines r" by blast
      then have "first_line (NL # replace [NL, NL] [NL] r) = first_line (NL # r)
        \<and> later_lines (NL # replace [NL, NL] [NL] r) = later_lines (NL # r)"
        using same_lines_Cons by blast
      then show ?thesis using r Cons lines_NL_NL[of r]
        by (simp only: replace_NL_NL_simps(1))
    next
      case False
      have step: "replace [NL, NL] [NL] (c # cs) = c # replace [NL, NL] [NL] cs"
      proof (cases "c = NL")
        case True
        with False show ?thesis by (cases cs) auto
      next
        case False
        then show ?thesis by (rule replace_NL_NL_simps(2))
      qed
      have "length cs < length s" using Cons by simp
      with 1 have "first_line (replace [NL, NL] [NL] cs) = first_line cs
        \<and> later_lines (replace [NL, NL] [NL] cs) = later_lines cs" by blast
      then have "first_line (c # replace [NL, NL] [NL] cs) = first_line (c # cs)
        \<and> later_lines (c # replace [NL, NL] [NL] cs) = later_lines (c # cs)"
        using same_lines_Cons by blast
      then show ?thesis using Cons step by simp
    qed
  qed
qed

lemma lines_sub_newlines:
  "first_line (sub_newlines s) = first_line s \<and> later_lines (sub_newlines s) = later_lines s"
proof (induction s rule: sub_newlines.induct)
  case 1
  then show ?case by simp
next
  case (2 c cs)
  show ?case
  proof (cases "c = NL")
    case True
    let ?run = "takeWhile (\<lambda>x. x = NL) cs"
    let ?rest = "dropWhile (\<lambda>x. x = NL) cs"
    have run: "\<forall>x\<in>set ?run. x = NL" by (meson set_takeWhileD)
    have IH: "first_line (sub_newlines ?rest) = first_line ?rest
      \<and> later_lines (sub_newlines ?rest) = later_lines ?rest"
      using 2(1) True by simp
    then have a: "first_line (NL # sub_newlines ?rest) = first_line (NL # ?rest)
      \<and> later_lines (NL # sub_newlines ?rest) = later_lines (NL # ?rest)"
      using same_lines_Cons by blast
    have b: "first_line (NL # cs) = first_line (NL # ?rest)
      \<and> later_lines (NL # cs) = later_lines (NL # ?rest)"
      using lines_NL_run[OF run, of ?rest] by simp
    show ?thesis
    proof (cases "2 \<le> length ?run")
      case long: True
      have "sub_newlines (c # cs) = NL # [NL] @ sub_newlines ?rest" using True long by simp
      moreover have "first_line (NL # [NL] @ sub_newlines ?rest) = first_line (NL # sub_newlines ?rest)
        \<and> later_lines (NL # [NL] @ sub_newlines ?rest) = later_lines (NL # sub_newlines ?rest)"
        using lines_NL_NL[of "sub_newlines ?rest"] by simp
      ultimately show ?thesis using a b True by simp
    next
      case short: False
      have "sub_newlines (c # cs) = NL # ?run @ sub_newlines ?rest" using True short by simp
      moreover have "first_line (NL # ?run @ sub_newlines ?rest) = first_line (NL # sub_newlines ?rest)
        \<and> later_lines (NL # ?run @ sub_newlines ?rest) = later_lines (NL # sub_newlines ?rest)"
        by (rule lines_NL_run[OF run])
      ultimately show ?thesis using a b True by simp
    qed
  next
    case False
    then have "first_line (sub_newlines cs) = first_line cs
      \<and> later_lines (sub_newlines cs) = later_lines cs"
      using 2(2) by simp
    then have "first_line (c # sub_newlines cs) = first_line (c # cs)
      \<and> later_lines (c # sub_newlines cs) = later_lines (c # cs)"
      using same_lines_Cons by blast
    then show ?thesis using False by simp
  qed
qed

lemma nonempty_lines_replace: "nonempty_lines (replace [NL, NL] [NL] s) = nonempty_lines s"
  by (simp add: nonempty_lines_eq lines_replace)

lemma nonempty_lines_sub_newlines: "nonempty_lines (sub_newlines s) = nonempty_lines s"
  by (simp add: nonempty_lines_eq lines_sub_newlines)


subsection \<open>Splitting and joining\<close>

lemma join_split_on: "join [d] (split_on d s) = s"
proof (induction s)
  case Nil
  then show ?case by simp
next
  case (Cons c cs)
  obtain l ls where sp: "split_on d cs = l # ls" by (cases "split_on d cs") (use split_on_nonempty in auto)
  show ?case
  proof (cases "c = d")
    case True
    then show ?thesis using Cons sp by simp
  next
    case False
    have "join [d] ((c # l) # ls) = c # join [d] (l # ls)" by (cases ls) simp_all
    then show ?thesis using False Cons sp by simp
  qed
qed

lemma split_on_append_sep:
  "d \<notin> set x \<Longrightarrow> split_on d (x @ d # r) = x # split_on d r"
  by (induction x) auto

lemma split_on_no_sep_id: "d \<notin> set x \<Longrightarrow> split_on d x = [x]"
  by (induction x) auto

lemma split_on_join:
  "xs \<noteq> [] \<Longrightarrow> \<forall>x\<in>set xs. d \<notin> set x \<Longrightarrow> split_on d (join [d] xs) = xs"
proof (induction xs rule: induct_list012)
  case 1
  then show ?case by simp
next
  case (2 x)
  then show ?case by (simp add: split_on_no_sep_id)
next
  case (3 x y ys)
  have x: "d \<notin> set x" using 3(4) by simp
  have "\<forall>x\<in>set (y # ys). d \<notin> set x" using 3(4) by simp
  then have "split_on d (join [d] (y # ys)) = y # ys" using 3(2) by blast
  moreover have "join [d] (x # y # ys) = x @ d # join [d] (y # ys)" by simp
  ultimately show ?case using split_on_append_sep[OF x] by metis
qed

lemma filter_map_nonempty:
  "g [] = [] \<Longrightarrow>
   filter (\<lambda>l. l \<noteq> []) (map g xs) = filter (\<lambda>l. l \<noteq> []) (map g (filter (\<lambda>l. l \<noteq> []) xs))"
  by (induction xs) auto

subsection \<open>Collapsing blanks line by line\<close>

lemma sub_blanks_append_NL:
  "sub_blanks (a @ NL # b) = sub_blanks a @ NL # sub_blanks b"
proof (induction a rule: sub_blanks.induct)
  case 1
  then show ?case by simp
next
  case (2 c cs)
  show ?case
  proof (cases "blank c")
    case True
    have dw: "dropWhile blank (cs @ NL # b) = dropWhile blank cs @ NL # b"
      by (simp add: dropWhile_append)
    have "sub_blanks (dropWhile blank cs @ NL # b) = sub_blanks (dropWhile blank cs) @ NL # sub_blanks b"
      using 2(1) True by blast
    then show ?thesis using True dw by simp
  next
    case False
    then show ?thesis using 2(2) by simp
  qed
qed

lemma sub_blanks_join:
  "sub_blanks (join [NL] ls) = join [NL] (map sub_blanks ls)"
proof (induction ls rule: induct_list012)
  case 1
  then show ?case by simp
next
  case (2 x)
  then show ?case by simp
next
  case (3 x y ys)
  have "sub_blanks (join [NL] (x # y # ys)) = sub_blanks (x @ NL # join [NL] (y # ys))" by simp
  also have "\<dots> = sub_blanks x @ NL # sub_blanks (join [NL] (y # ys))"
    by (rule sub_blanks_append_NL)
  also have "\<dots> = sub_blanks x @ NL # join [NL] (map sub_blanks (y # ys))" using 3(2) by simp
  finally show ?case by simp
qed

lemma set_sub_blanks: "set (sub_blanks s) \<subseteq> insert (CHR '' '') (set s)"
proof (induction s rule: sub_blanks.induct)
  case 1
  then show ?case by simp
next
  case (2 c cs)
  show ?case
  proof (cases "blank c")
    case True
    have "set (dropWhile blank cs) \<subseteq> set cs" by (rule set_dropWhileD[THEN subsetI])
    moreover have "set (sub_blanks (dropWhile blank cs)) \<subseteq> insert (CHR '' '') (set (dropWhile blank cs))"
      using 2(1) True by blast
    ultimately show ?thesis using True by auto
  next
    case False
    then show ?thesis using 2(2) by auto
  qed
qed

lemma split_on_sub_blanks:
  "split_on NL (sub_blanks s) = map sub_blanks (split_on NL s)"
proof -
  let ?ls = "split_on NL s"
  have "sub_blanks s = sub_blanks (join [NL] ?ls)" by (simp add: join_split_on)
  also have "\<dots> = join [NL] (map sub_blanks ?ls)" by (rule sub_blanks_join)
  finally have "split_on NL (sub_blanks s) = split_on NL (join [NL] (map sub_blanks ?ls))" by simp
  also have "\<dots> = map sub_blanks ?ls"
  proof (rule split_on_join)
    show "map sub_blanks ?ls \<noteq> []" by simp
    show "\<forall>x\<in>set (map sub_blanks ?ls). NL \<notin> set x"
    proof
      fix x assume "x \<in> set (map sub_blanks ?ls)"
      then obtain l where l: "l \<in> set ?ls" "x = sub_blanks l" by auto
      from split_on_no_sep[OF l(1)] set_sub_blanks[of l] l(2) show "NL \<notin> set x" by auto
    qed
  qed
  finally show ?thesis .
qed

subsection \<open>Whitespace cleaning in terms of the non-empty lines\<close>

lemma clean_whitespace_lines_eq:
  "clean_whitespace text =
     join [NL] (filter (\<lambda>l. l \<noteq> []) (map (\<lambda>l. strip (sub_blanks l)) (nonempty_lines text)))"
proof -
  have g: "(\<lambda>l. strip (sub_blanks l)) [] = []" by simp
  have "filter (\<lambda>l. l \<noteq> []) (map strip (split_on NL (sub_blanks (sub_newlines text))))
      = filter (\<lambda>l. l \<noteq> []) (map (\<lambda>l. strip (sub_blanks l)) (split_on NL (sub_newlines text)))"
    by (simp add: split_on_sub_blanks comp_def)
  also have "\<dots> = filter (\<lambda>l. l \<noteq> [])
      (map (\<lambda>l. strip (sub_blanks l)) (nonempty_lines (sub_newlines text)))"
    unfolding nonempty_lines_def
    using filter_map_nonempty[where g = "\<lambda>l. strip (sub_blanks l)"] by simp
  finally show ?thesis by (simp add: clean_whitespace_def nonempty_lines_sub_newlines)
qed

lemma clean_whitespace_replace:
  "clean_whitespace (replace [NL, NL] [NL] text) = clean_whitespace text"
  by (simp add: clean_whitespace_lines_eq nonempty_lines_replace)





subsection \<open>The normalization pipeline\<close>






section \<open>Normalization is idempotent on text without markup\<close>

subsection \<open>Text that tag stripping leaves alone\<close>

lemma match_iff:
  "takeWhile (\<lambda>x. x \<noteq> GT) cs \<noteq> [] \<and> dropWhile (\<lambda>x. x \<noteq> GT) cs \<noteq> []
   \<longleftrightarrow> cs \<noteq> [] \<and> hd cs \<noteq> GT \<and> GT \<in> set cs"
proof -
  have a: "takeWhile (\<lambda>x. x \<noteq> GT) cs \<noteq> [] \<longleftrightarrow> cs \<noteq> [] \<and> hd cs \<noteq> GT"
    by (cases cs) simp_all
  have b: "dropWhile (\<lambda>x. x \<noteq> GT) cs \<noteq> [] \<longleftrightarrow> GT \<in> set cs"
    unfolding dropWhile_eq_Nil_conv by blast
  show ?thesis unfolding a b by (rule conj_assoc)
qed

lemma length_sub_tags: "length (sub_tags s) \<le> length s"
proof (induction s rule: sub_tags.induct)
  case 1
  then show ?case by simp
next
  case (2 c cs)
  let ?m = "c = LT \<and> takeWhile (\<lambda>x. x \<noteq> GT) cs \<noteq> [] \<and> dropWhile (\<lambda>x. x \<noteq> GT) cs \<noteq> []"
  show ?case
  proof (cases ?m)
    case True
    have "length (sub_tags (tl (dropWhile (\<lambda>x. x \<noteq> GT) cs))) \<le> length (tl (dropWhile (\<lambda>x. x \<noteq> GT) cs))"
      using 2(1) True by blast
    also have "\<dots> \<le> length cs" using length_dropWhile_le[of "\<lambda>x. x \<noteq> GT" cs] by simp
    finally show ?thesis using True by simp
  next
    case False
    then show ?thesis using 2(2) by auto
  qed
qed

lemma tagged_sub_tags_shorter: "tagged s \<Longrightarrow> length (sub_tags s) < length s"
proof (induction s rule: sub_tags.induct)
  case 1
  then show ?case by simp
next
  case (2 c cs)
  let ?m = "c = LT \<and> takeWhile (\<lambda>x. x \<noteq> GT) cs \<noteq> [] \<and> dropWhile (\<lambda>x. x \<noteq> GT) cs \<noteq> []"
  show ?case
  proof (cases ?m)
    case True
    have "length (sub_tags (tl (dropWhile (\<lambda>x. x \<noteq> GT) cs))) \<le> length (tl (dropWhile (\<lambda>x. x \<noteq> GT) cs))"
      by (rule length_sub_tags)
    also have "\<dots> \<le> length cs" using length_dropWhile_le[of "\<lambda>x. x \<noteq> GT" cs] by simp
    finally show ?thesis using True by simp
  next
    case False
    then have "\<not> (c = LT \<and> cs \<noteq> [] \<and> hd cs \<noteq> GT \<and> GT \<in> set cs)" using match_iff[of cs] by blast
    with 2(3) have "tagged cs" by simp
    with 2(2) False have "length (sub_tags cs) < length cs" by blast
    then show ?thesis using False by auto
  qed
qed

lemma sub_tags_fixed_iff: "sub_tags s = s \<longleftrightarrow> \<not> tagged s"
proof
  assume "sub_tags s = s"
  then show "\<not> tagged s" using tagged_sub_tags_shorter[of s] by auto
next
  show "\<not> tagged s \<Longrightarrow> sub_tags s = s"
  proof (induction s rule: sub_tags.induct)
    case 1
    then show ?case by simp
  next
    case (2 c cs)
    have nm: "\<not> (c = LT \<and> takeWhile (\<lambda>x. x \<noteq> GT) cs \<noteq> [] \<and> dropWhile (\<lambda>x. x \<noteq> GT) cs \<noteq> [])"
      using 2(3) match_iff[of cs] by auto
    have "\<not> tagged cs" using 2(3) by simp
    with 2(2) nm have "sub_tags cs = cs" by blast
    then show ?case using nm by auto
  qed
qed

lemma tagged_suffix: "tagged v \<Longrightarrow> tagged (u @ v)"
  by (induction u) auto

lemma pending_suffix: "pending v \<Longrightarrow> pending (u @ v)"
  by (induction u) auto

lemma tagged_append:
  "v = [] \<or> hd v \<noteq> GT \<Longrightarrow>
   tagged (u @ v) \<longleftrightarrow> tagged u \<or> tagged v \<or> (pending u \<and> GT \<in> set v)"
proof (induction u)
  case Nil
  then show ?case by simp
next
  case (Cons a u)
  show ?case
  proof (cases "u = []")
    case True
    then show ?thesis using Cons.prems by (cases v) auto
  next
    case False
    then have "hd (u @ v) = hd u" by simp
    then show ?thesis using Cons False by auto
  qed
qed

lemma pending_prefix: "v = [] \<or> hd v \<noteq> GT \<Longrightarrow> pending u \<Longrightarrow> pending (u @ v)"
proof (induction u)
  case Nil
  then show ?case by simp
next
  case (Cons a u)
  show ?case
  proof (cases "u = []")
    case True
    then show ?thesis using Cons.prems by (cases v) auto
  next
    case False
    then have "hd (u @ v) = hd u" by simp
    then show ?thesis using Cons False by auto
  qed
qed

subsection \<open>Whitespace cleaning is idempotent\<close>

lemma hd_sub_blanks: "s \<noteq> [] \<Longrightarrow> \<not> blank (hd s) \<Longrightarrow> sub_blanks s \<noteq> [] \<and> hd (sub_blanks s) = hd s"
  by (cases s) auto

lemma sub_blanks_normal:
  "TAB \<notin> set (sub_blanks s) \<and> \<not> sublist [SP, SP] (sub_blanks s)"
proof (induction s rule: sub_blanks.induct)
  case 1
  then show ?case by simp
next
  case (2 c cs)
  show ?case
  proof (cases "blank c")
    case True
    let ?d = "dropWhile blank cs"
    let ?t = "sub_blanks ?d"
    have IH: "TAB \<notin> set ?t \<and> \<not> sublist [SP, SP] ?t" using 2(1) True by blast
    have "\<not> prefix [SP, SP] (SP # ?t)"
    proof (cases "?d = []")
      case True
      then have "?t = []" by (simp only: sub_blanks.simps)
      then show ?thesis by (simp only: prefix_Cons prefix_Nil) simp
    next
      case False
      then have "\<not> blank (hd ?d)" using hd_dropWhile[of blank cs] by blast
      with False have "?t \<noteq> [] \<and> hd ?t = hd ?d" by (rule hd_sub_blanks)
      with \<open>\<not> blank (hd ?d)\<close> show ?thesis by (cases ?t) auto
    qed
    with IH have "TAB \<notin> set (SP # ?t) \<and> \<not> sublist [SP, SP] (SP # ?t)"
      by (simp add: sublist_Cons_right)
    then show ?thesis using True by simp
  next
    case False
    have IH: "TAB \<notin> set (sub_blanks cs) \<and> \<not> sublist [SP, SP] (sub_blanks cs)"
      using 2(2) False by blast
    have "\<not> prefix [SP, SP] (c # sub_blanks cs)" using False by auto
    with IH False have "TAB \<notin> set (c # sub_blanks cs) \<and> \<not> sublist [SP, SP] (c # sub_blanks cs)"
      by (auto simp add: sublist_Cons_right)
    then show ?thesis using False by simp
  qed
qed

lemma sub_blanks_fixed:
  "TAB \<notin> set s \<Longrightarrow> \<not> sublist [SP, SP] s \<Longrightarrow> sub_blanks s = s"
proof (induction s rule: sub_blanks.induct)
  case 1
  then show ?case by simp
next
  case (2 c cs)
  have tab: "TAB \<notin> set cs" and c: "c \<noteq> TAB" using 2(3) by auto
  have sub: "\<not> sublist [SP, SP] cs" and pre: "\<not> prefix [SP, SP] (c # cs)"
    using 2(4) by (simp_all add: sublist_Cons_right)
  show ?case
  proof (cases "blank c")
    case True
    with c have csp: "c = SP" by simp
    have "dropWhile blank cs = cs"
    proof (cases cs)
      case Nil
      then show ?thesis by simp
    next
      case (Cons d ds)
      with pre csp have "d \<noteq> SP" by auto
      moreover have "d \<noteq> TAB" using tab Cons by auto
      ultimately show ?thesis using Cons by simp
    qed
    moreover have "sub_blanks (dropWhile blank cs) = dropWhile blank cs"
    proof (rule 2(1)[OF True])
      show "TAB \<notin> set (dropWhile blank cs)" using tab \<open>dropWhile blank cs = cs\<close> by simp
      show "\<not> sublist [SP, SP] (dropWhile blank cs)" using sub \<open>dropWhile blank cs = cs\<close> by simp
    qed
    ultimately show ?thesis using csp by simp
  next
    case False
    then show ?thesis using 2(2)[OF False tab sub] by simp
  qed
qed

lemma line_cleaned_fixed:
  "strip (sub_blanks (strip (sub_blanks l))) = strip (sub_blanks l)"
proof -
  let ?x = "strip (sub_blanks l)"
  have "TAB \<notin> set ?x" using sub_blanks_normal[of l] set_strip[of "sub_blanks l"] by blast
  moreover have "\<not> sublist [SP, SP] ?x" using sub_blanks_normal[of l] by (intro not_sublist_strip) simp
  ultimately have "sub_blanks ?x = ?x" by (rule sub_blanks_fixed)
  then show ?thesis by (simp add: strip_idem)
qed

lemma NL_notin_cleaned_line:
  assumes "x \<in> set (filter (\<lambda>l. l \<noteq> []) (map (\<lambda>l. strip (sub_blanks l)) (nonempty_lines text)))"
  shows "x \<noteq> [] \<and> NL \<notin> set x \<and> strip (sub_blanks x) = x"
proof -
  from assms obtain l where l: "l \<in> set (split_on NL text)" "x = strip (sub_blanks l)" "x \<noteq> []"
    by (auto simp: nonempty_lines_def)
  have "NL \<notin> set (sub_blanks l)" using split_on_no_sep[OF l(1)] set_sub_blanks[of l] by auto
  then have "NL \<notin> set x" using set_strip[of "sub_blanks l"] l(2) by blast
  moreover have "strip (sub_blanks x) = x" unfolding l(2) by (rule line_cleaned_fixed)
  ultimately show ?thesis using l(3) by simp
qed

lemma nonempty_lines_join:
  assumes "\<forall>x\<in>set xs. x \<noteq> [] \<and> NL \<notin> set x"
  shows "nonempty_lines (join [NL] xs) = xs"
proof (cases "xs = []")
  case True
  then show ?thesis by (simp add: nonempty_lines_def)
next
  case False
  have "split_on NL (join [NL] xs) = xs" using False assms by (intro split_on_join) auto
  moreover have "filter (\<lambda>l. l \<noteq> []) xs = xs" using assms by (intro filter_True) auto
  ultimately show ?thesis by (simp add: nonempty_lines_def)
qed

lemma clean_whitespace_idem: "clean_whitespace (clean_whitespace text) = clean_whitespace text"
proof -
  let ?xs = "filter (\<lambda>l. l \<noteq> []) (map (\<lambda>l. strip (sub_blanks l)) (nonempty_lines text))"
  have props: "\<forall>x\<in>set ?xs. x \<noteq> [] \<and> NL \<notin> set x \<and> strip (sub_blanks x) = x"
    using NL_notin_cleaned_line by blast
  have c: "clean_whitespace text = join [NL] ?xs" by (rule clean_whitespace_lines_eq)
  have nl: "nonempty_lines (join [NL] ?xs) = ?xs" using props by (intro nonempty_lines_join) blast
  have "map (\<lambda>l. strip (sub_blanks l)) ?xs = ?xs" using props by (intro map_idI) blast
  moreover have "filter (\<lambda>l. l \<noteq> []) ?xs = ?xs" by simp
  ultimately have "filter (\<lambda>l. l \<noteq> []) (map (\<lambda>l. strip (sub_blanks l)) ?xs) = ?xs" by metis
  then have "clean_whitespace (join [NL] ?xs) = join [NL] ?xs"
    using clean_whitespace_lines_eq[of "join [NL] ?xs"] nl by metis
  then show ?thesis unfolding c .
qed


subsection \<open>Whitespace cleaning creates no tag\<close>

lemma tagged_prefix: "tagged u \<Longrightarrow> tagged (u @ v)"
proof (induction u)
  case Nil
  then show ?case by simp
next
  case (Cons a u)
  show ?case
  proof (cases "u = []")
    case True
    then show ?thesis using Cons.prems by simp
  next
    case False
    then have "hd (u @ v) = hd u" by simp
    then show ?thesis using Cons False by auto
  qed
qed

lemma hd_sub_blanks_GT: "cs \<noteq> [] \<Longrightarrow> hd cs = GT \<Longrightarrow> sub_blanks cs \<noteq> [] \<and> hd (sub_blanks cs) = GT"
  using hd_sub_blanks[of cs] by simp

lemma GT_sub_blanks: "GT \<in> set (sub_blanks l) \<Longrightarrow> GT \<in> set l"
  using set_sub_blanks[of l] by auto

lemma tagged_sub_blanks: "tagged (sub_blanks l) \<Longrightarrow> tagged l"
proof (induction l rule: sub_blanks.induct)
  case 1
  then show ?case by simp
next
  case (2 c cs)
  show ?case
  proof (cases "blank c")
    case True
    then have "tagged (sub_blanks (dropWhile blank cs))" using 2(3) by auto
    with 2(1) True have "tagged (dropWhile blank cs)" by blast
    then have "tagged (takeWhile blank cs @ dropWhile blank cs)" by (rule tagged_suffix)
    then show ?thesis by simp
  next
    case False
    let ?sb = "sub_blanks cs"
    from False 2(3) have "(c = LT \<and> ?sb \<noteq> [] \<and> hd ?sb \<noteq> GT \<and> GT \<in> set ?sb) \<or> tagged ?sb"
      by simp
    then show ?thesis
    proof
      assume h: "c = LT \<and> ?sb \<noteq> [] \<and> hd ?sb \<noteq> GT \<and> GT \<in> set ?sb"
      then have ne: "cs \<noteq> []" by auto
      have "hd cs \<noteq> GT" using hd_sub_blanks_GT[OF ne] h by blast
      moreover have "GT \<in> set cs" using h GT_sub_blanks by blast
      ultimately show ?thesis using h ne by simp
    next
      assume "tagged ?sb"
      with 2(2) False have "tagged cs" by blast
      then show ?thesis by simp
    qed
  qed
qed

lemma pending_sub_blanks: "pending (sub_blanks l) \<Longrightarrow> pending l"
proof (induction l rule: sub_blanks.induct)
  case 1
  then show ?case by simp
next
  case (2 c cs)
  show ?case
  proof (cases "blank c")
    case True
    then have "pending (sub_blanks (dropWhile blank cs))" using 2(3) by auto
    with 2(1) True have "pending (dropWhile blank cs)" by blast
    then have "pending (takeWhile blank cs @ dropWhile blank cs)" by (rule pending_suffix)
    then show ?thesis by simp
  next
    case False
    let ?sb = "sub_blanks cs"
    from False 2(3) have "(c = LT \<and> (?sb = [] \<or> hd ?sb \<noteq> GT)) \<or> pending ?sb"
      by simp
    then show ?thesis
    proof
      assume h: "c = LT \<and> (?sb = [] \<or> hd ?sb \<noteq> GT)"
      have "cs = [] \<or> hd cs \<noteq> GT" using hd_sub_blanks_GT[of cs] h by blast
      then show ?thesis using h by simp
    next
      assume "pending ?sb"
      with 2(2) False have "pending cs" by blast
      then show ?thesis by simp
    qed
  qed
qed

lemma isspace_not_GT: "isspace x \<Longrightarrow> x \<noteq> GT"
  by (auto simp: isspace_def)

lemma strip_context:
  obtains a b where "s = a @ strip s @ b" "b = [] \<or> hd b \<noteq> GT"
proof -
  obtain a b where ab: "s = a @ strip s @ b" "\<forall>x\<in>set b. isspace x"
    using strip_decomp[of s] by blast
  have "b = [] \<or> hd b \<noteq> GT"
  proof (cases b)
    case Nil
    then show ?thesis by simp
  next
    case (Cons x xs)
    then have "isspace x" using ab(2) by simp
    then show ?thesis using Cons isspace_not_GT by simp
  qed
  with ab(1) that show ?thesis by blast
qed

lemma tagged_strip: "tagged (strip s) \<Longrightarrow> tagged s"
proof -
  assume t: "tagged (strip s)"
  obtain a b where ab: "s = a @ strip s @ b" "b = [] \<or> hd b \<noteq> GT" by (rule strip_context)
  from t have "tagged (strip s @ b)" by (rule tagged_prefix)
  then have "tagged (a @ strip s @ b)" by (rule tagged_suffix)
  with ab(1) show ?thesis by simp
qed

lemma pending_strip: "pending (strip s) \<Longrightarrow> pending s"
proof -
  assume t: "pending (strip s)"
  obtain a b where ab: "s = a @ strip s @ b" "b = [] \<or> hd b \<noteq> GT" by (rule strip_context)
  from ab(2) t have "pending (strip s @ b)" by (rule pending_prefix)
  then have "pending (a @ strip s @ b)" by (rule pending_suffix)
  with ab(1) show ?thesis by simp
qed

lemma GT_strip: "GT \<in> set (strip s) \<Longrightarrow> GT \<in> set s"
  using set_strip[of s] by blast

lemma GT_join: "GT \<in> set (join [NL] xs) \<longleftrightarrow> (\<exists>x\<in>set xs. GT \<in> set x)"
  by (induction xs rule: induct_list012) auto

lemma tagged_join_Cons:
  "ls \<noteq> [] \<Longrightarrow>
   tagged (join [NL] (l # ls)) \<longleftrightarrow>
     tagged l \<or> tagged (join [NL] ls) \<or> (pending l \<and> GT \<in> set (join [NL] ls))"
proof -
  assume "ls \<noteq> []"
  then have j: "join [NL] (l # ls) = l @ (NL # join [NL] ls)" by (cases ls) simp_all
  have "tagged (l @ (NL # join [NL] ls)) \<longleftrightarrow>
      tagged l \<or> tagged (NL # join [NL] ls) \<or> (pending l \<and> GT \<in> set (NL # join [NL] ls))"
    by (rule tagged_append) simp
  then show ?thesis unfolding j by simp
qed

lemma tagged_join_lines:
  assumes h: "\<And>l. tagged (h l) \<Longrightarrow> tagged l" "\<And>l. pending (h l) \<Longrightarrow> pending l"
    "\<And>l. GT \<in> set (h l) \<Longrightarrow> GT \<in> set l"
  shows "tagged (join [NL] (filter (\<lambda>l. l \<noteq> []) (map h ls))) \<Longrightarrow> tagged (join [NL] ls)"
proof (induction ls)
  case Nil
  then show ?case by simp
next
  case (Cons l ls)
  let ?xs = "filter (\<lambda>l. l \<noteq> []) (map h ls)"
  have GTs: "GT \<in> set (join [NL] ?xs) \<Longrightarrow> GT \<in> set (join [NL] ls)"
    unfolding GT_join using h(3) by auto
  have rest: "tagged (join [NL] ?xs) \<Longrightarrow> ls \<noteq> [] \<and> tagged (join [NL] (l # ls))"
  proof -
    assume "tagged (join [NL] ?xs)"
    then have t: "tagged (join [NL] ls)" by (rule Cons.IH)
    then have ne: "ls \<noteq> []" by auto
    with t show ?thesis using tagged_join_Cons[OF ne, of l] by simp
  qed
  show ?case
  proof (cases "h l = []")
    case True
    with Cons.prems have "tagged (join [NL] ?xs)" by simp
    then show ?thesis using rest by blast
  next
    case False
    show ?thesis
    proof (cases "?xs = []")
      case True
      with False Cons.prems have "tagged (h l)" by simp
      then have "tagged l" by (rule h(1))
      then show ?thesis
      proof (cases "ls = []")
        case True
        with \<open>tagged l\<close> show ?thesis by simp
      next
        case ne: False
        with \<open>tagged l\<close> show ?thesis using tagged_join_Cons[OF ne, of l] by simp
      qed
    next
      case xs: False
      then have ne: "ls \<noteq> []" by auto
      from False Cons.prems have "tagged (join [NL] (h l # ?xs))" by simp
      then have "tagged (h l) \<or> tagged (join [NL] ?xs) \<or> (pending (h l) \<and> GT \<in> set (join [NL] ?xs))"
        using tagged_join_Cons[OF xs, of "h l"] by simp
      then show ?thesis
      proof (elim disjE)
        assume "tagged (h l)"
        then have "tagged l" by (rule h(1))
        then show ?thesis using tagged_join_Cons[OF ne, of l] by simp
      next
        assume "tagged (join [NL] ?xs)"
        then show ?thesis using rest by blast
      next
        assume p: "pending (h l) \<and> GT \<in> set (join [NL] ?xs)"
        then have "pending l" using h(2) by blast
        moreover have "GT \<in> set (join [NL] ls)" using p GTs by blast
        ultimately show ?thesis using tagged_join_Cons[OF ne, of l] by simp
      qed
    qed
  qed
qed

lemma clean_replace_lines:
  "clean_whitespace (replace [NL, NL] [NL] t) =
     join [NL] (filter (\<lambda>l. l \<noteq> []) (map (\<lambda>l. strip (sub_blanks l)) (split_on NL t)))"
proof -
  have "clean_whitespace (replace [NL, NL] [NL] t) =
     join [NL] (filter (\<lambda>l. l \<noteq> []) (map (\<lambda>l. strip (sub_blanks l)) (nonempty_lines t)))"
    by (simp add: clean_whitespace_lines_eq nonempty_lines_replace)
  also have "filter (\<lambda>l. l \<noteq> []) (map (\<lambda>l. strip (sub_blanks l)) (nonempty_lines t))
     = filter (\<lambda>l. l \<noteq> []) (map (\<lambda>l. strip (sub_blanks l)) (split_on NL t))"
    unfolding nonempty_lines_def
    using filter_map_nonempty[where g = "\<lambda>l. strip (sub_blanks l)" and xs = "split_on NL t"] by simp
  finally show ?thesis .
qed

lemma tagged_clean_replace:
  "tagged (clean_whitespace (replace [NL, NL] [NL] t)) \<Longrightarrow> tagged t"
proof -
  assume "tagged (clean_whitespace (replace [NL, NL] [NL] t))"
  then have "tagged (join [NL] (filter (\<lambda>l. l \<noteq> []) (map (\<lambda>l. strip (sub_blanks l)) (split_on NL t))))"
    by (simp only: clean_replace_lines)
  then have "tagged (join [NL] (split_on NL t))"
  proof (rule tagged_join_lines[rotated 3])
    show "\<And>l. tagged (strip (sub_blanks l)) \<Longrightarrow> tagged l"
      using tagged_strip tagged_sub_blanks by blast
    show "\<And>l. pending (strip (sub_blanks l)) \<Longrightarrow> pending l"
      using pending_strip pending_sub_blanks by blast
    show "\<And>l. GT \<in> set (strip (sub_blanks l)) \<Longrightarrow> GT \<in> set l"
      using GT_strip GT_sub_blanks by blast
  qed
  then show ?thesis by (simp add: join_split_on)
qed

subsection \<open>Entity references\<close>

lemma take_eq_iff_prefix: "take (length old) s = old \<longleftrightarrow> prefix old s"
  by (metis append_take_drop_id prefix_def append_eq_conv_conj)

lemma length_replace_le:
  "old \<noteq> [] \<Longrightarrow> length new \<le> length old \<Longrightarrow> length (replace old new s) \<le> length s"
proof (induction s rule: length_induct)
  case (1 s)
  show ?case
  proof (cases s)
    case Nil
    then show ?thesis using 1(2) by simp
  next
    case (Cons c cs)
    show ?thesis
    proof (cases "take (length old) (c # cs) = old")
      case True
      let ?d = "drop (length old) (c # cs)"
      have "length (take (length old) (c # cs)) = length old" using True by simp
      then have lo: "length old \<le> length (c # cs)" by simp
      have "length ?d < length s" using Cons 1(2) lo by (cases old) auto
      then have "length (replace old new ?d) \<le> length ?d" using 1 by blast
      moreover have "length ?d = length (c # cs) - length old" by simp
      ultimately have "length (new @ replace old new ?d) \<le> length (c # cs)"
        using 1(3) lo by simp
      then show ?thesis using Cons True 1(2) by simp
    next
      case False
      have "length (replace old new cs) \<le> length cs" using 1 Cons by simp
      then show ?thesis using Cons False 1(2) by simp
    qed
  qed
qed

lemma length_replace_less:
  "old \<noteq> [] \<Longrightarrow> length new < length old \<Longrightarrow> sublist old s \<Longrightarrow>
   length (replace old new s) < length s"
proof (induction s rule: length_induct)
  case (1 s)
  show ?case
  proof (cases s)
    case Nil
    then show ?thesis using 1(2,4) by simp
  next
    case (Cons c cs)
    show ?thesis
    proof (cases "take (length old) (c # cs) = old")
      case True
      let ?d = "drop (length old) (c # cs)"
      have "length (take (length old) (c # cs)) = length old" using True by simp
      then have lo: "length old \<le> length (c # cs)" by simp
      have "length (replace old new ?d) \<le> length ?d"
        using length_replace_le[OF 1(2), of new ?d] 1(3) by simp
      moreover have "length ?d = length (c # cs) - length old" by simp
      ultimately have "length (new @ replace old new ?d) < length (c # cs)"
        using 1(3) lo by simp
      then show ?thesis using Cons True 1(2) by simp
    next
      case False
      then have "\<not> prefix old (c # cs)" by (simp only: take_eq_iff_prefix not_False_eq_True)
      with 1(4) Cons have "sublist old cs" by (simp add: sublist_Cons_right)
      then have "length (replace old new cs) < length cs" using 1 Cons by simp
      then show ?thesis using Cons False 1(2) by simp
    qed
  qed
qed

lemma replace_absent: "old \<noteq> [] \<Longrightarrow> \<not> sublist old s \<Longrightarrow> replace old new s = s"
proof (induction s)
  case Nil
  then show ?case by simp
next
  case (Cons c cs)
  have "\<not> prefix old (c # cs)" and "\<not> sublist old cs"
    using Cons.prems(2) by (simp_all add: sublist_Cons_right)
  then have "take (length old) (c # cs) \<noteq> old" and "replace old new cs = cs"
    using Cons.IH Cons.prems(1) by (simp_all only: take_eq_iff_prefix not_False_eq_True)
  then show ?case using Cons.prems(1) by simp
qed

lemma replace_fixed_then_absent:
  assumes "old \<noteq> []" "length new < length old"
    and "\<And>x. length (f x) \<le> length x"
    and "f (replace old new t) = t"
  shows "\<not> sublist old t \<and> replace old new t = t"
proof -
  have "\<not> sublist old t"
  proof
    assume "sublist old t"
    then have "length (replace old new t) < length t" using assms(1,2) by (intro length_replace_less)
    moreover have "length (f (replace old new t)) \<le> length (replace old new t)" by (rule assms(3))
    ultimately show False using assms(4) by simp
  qed
  then show ?thesis using replace_absent[OF assms(1)] by blast
qed

lemma decode_entities_fixed_if: "\<forall>e\<in>set entities. \<not> sublist e t \<Longrightarrow> decode_entities t = t"
  by (simp add: decode_entities_def entities_def replace_absent)

lemma decode_entities_fixed_only_if:
  assumes "decode_entities t = t"
  shows "\<forall>e\<in>set entities. \<not> sublist e t"
proof -
  let ?r1 = "replace ''&nbsp;'' '' ''" and ?r2 = "replace ''&amp;'' ''&''"
  and ?r3 = "replace ''&lt;'' ''<''" and ?r4 = "replace ''&gt;'' ''>''"
  and ?r5 = "replace ''&quot;'' [CHR 0x22]" and ?r6 = "replace ''&#39;'' [CHR 0x27]"
  have le: "\<And>x. length (?r2 x) \<le> length x" "\<And>x. length (?r3 x) \<le> length x"
    "\<And>x. length (?r4 x) \<le> length x" "\<And>x. length (?r5 x) \<le> length x"
    "\<And>x. length (?r6 x) \<le> length x"
    by (simp_all add: length_replace_le)
  have D: "?r6 (?r5 (?r4 (?r3 (?r2 (?r1 t))))) = t" using assms by (simp add: decode_entities_def)
  have 1: "\<not> sublist ''&nbsp;'' t \<and> ?r1 t = t"
  proof (rule replace_fixed_then_absent[where f = "\<lambda>x. ?r6 (?r5 (?r4 (?r3 (?r2 x))))"])
    show "\<And>x. length (?r6 (?r5 (?r4 (?r3 (?r2 x))))) \<le> length x"
      using le by (meson order_trans)
  qed (use D in simp_all)
  with D have D2: "?r6 (?r5 (?r4 (?r3 (?r2 t)))) = t" by simp
  have 2: "\<not> sublist ''&amp;'' t \<and> ?r2 t = t"
  proof (rule replace_fixed_then_absent[where f = "\<lambda>x. ?r6 (?r5 (?r4 (?r3 x)))"])
    show "\<And>x. length (?r6 (?r5 (?r4 (?r3 x)))) \<le> length x"
      using le by (meson order_trans)
  qed (use D2 in simp_all)
  with D2 have D3: "?r6 (?r5 (?r4 (?r3 t))) = t" by simp
  have 3: "\<not> sublist ''&lt;'' t \<and> ?r3 t = t"
  proof (rule replace_fixed_then_absent[where f = "\<lambda>x. ?r6 (?r5 (?r4 x))"])
    show "\<And>x. length (?r6 (?r5 (?r4 x))) \<le> length x"
      using le by (meson order_trans)
  qed (use D3 in simp_all)
  with D3 have D4: "?r6 (?r5 (?r4 t)) = t" by simp
  have 4: "\<not> sublist ''&gt;'' t \<and> ?r4 t = t"
  proof (rule replace_fixed_then_absent[where f = "\<lambda>x. ?r6 (?r5 x)"])
    show "\<And>x. length (?r6 (?r5 x)) \<le> length x"
      using le by (meson order_trans)
  qed (use D4 in simp_all)
  with D4 have D5: "?r6 (?r5 t) = t" by simp
  have 5: "\<not> sublist ''&quot;'' t \<and> ?r5 t = t"
  proof (rule replace_fixed_then_absent[where f = "\<lambda>x. ?r6 x"])
    show "\<And>x. length (?r6 x) \<le> length x" using le by blast
  qed (use D5 in simp_all)
  with D5 have D6: "?r6 t = t" by simp
  have 6: "\<not> sublist ''&#39;'' t \<and> ?r6 t = t"
  proof (rule replace_fixed_then_absent[where f = "\<lambda>x. x"])
    show "\<And>x::string. length x \<le> length x" by simp
  qed (use D6 in simp_all)
  from 1 2 3 4 5 6 show ?thesis by (simp add: entities_def)
qed

lemma sublist_across_separator:
  assumes "d \<notin> set e" "sublist e (a @ d # b)"
  shows "sublist e a \<or> sublist e b"
proof -
  from assms(2) have "sublist e a \<or> sublist e (d # b) \<or>
      (\<exists>e1 e2. e = e1 @ e2 \<and> suffix e1 a \<and> prefix e2 (d # b))"
    by (rule iffD1[OF sublist_append])
  then show ?thesis
  proof (elim disjE)
    assume "sublist e a" then show ?thesis ..
  next
    assume "sublist e (d # b)"
    then have "prefix e (d # b) \<or> sublist e b" by (simp add: sublist_Cons_right)
    then show ?thesis
    proof
      assume p: "prefix e (d # b)"
      have "e = []"
      proof (cases e)
        case Nil then show ?thesis .
      next
        case (Cons x xs)
        with p have "x = d" by simp
        with Cons assms(1) show ?thesis by simp
      qed
      then show ?thesis by simp
    next
      assume "sublist e b" then show ?thesis ..
    qed
  next
    assume "\<exists>e1 e2. e = e1 @ e2 \<and> suffix e1 a \<and> prefix e2 (d # b)"
    then obtain e1 e2 where e: "e = e1 @ e2" "suffix e1 a" "prefix e2 (d # b)" by blast
    have "e2 = []"
    proof (cases e2)
      case Nil then show ?thesis .
    next
      case (Cons x xs)
      with e(3) have "x = d" by simp
      with Cons e(1) assms(1) show ?thesis by simp
    qed
    with e(1,2) have "suffix e a" by simp
    then show ?thesis using suffix_imp_sublist by blast
  qed
qed

lemma sublist_join_line:
  "NL \<notin> set e \<Longrightarrow> e \<noteq> [] \<Longrightarrow> sublist e (join [NL] xs) \<Longrightarrow> \<exists>x\<in>set xs. sublist e x"
proof (induction xs rule: induct_list012)
  case 1
  then show ?case by simp
next
  case (2 x)
  then show ?case by simp
next
  case (3 x y ys)
  have "sublist e (x @ NL # join [NL] (y # ys))" using 3(5) by simp
  from sublist_across_separator[OF 3(3) this]
  show ?case
  proof
    assume "sublist e x" then show ?thesis by simp
  next
    assume "sublist e (join [NL] (y # ys))"
    with 3(2)[OF 3(3,4)] show ?thesis by auto
  qed
qed

lemma prefix_sub_blanks: "SP \<notin> set e \<Longrightarrow> prefix e (sub_blanks s) \<Longrightarrow> prefix e s"
proof (induction s arbitrary: e rule: sub_blanks.induct)
  case 1
  then show ?case by simp
next
  case (2 c cs)
  show ?case
  proof (cases e)
    case Nil
    then show ?thesis by simp
  next
    case (Cons x xs)
    show ?thesis
    proof (cases "blank c")
      case True
      with 2(4) Cons have "x = SP" by simp
      with 2(3) Cons show ?thesis by simp
    next
      case False
      with 2(4) Cons have x: "x = c" and p: "prefix xs (sub_blanks cs)" by simp_all
      have "SP \<notin> set xs" using 2(3) Cons by simp
      with 2(2)[OF False _ p] have "prefix xs cs" by blast
      with x Cons show ?thesis by simp
    qed
  qed
qed

lemma sublist_sub_blanks: "SP \<notin> set e \<Longrightarrow> sublist e (sub_blanks s) \<Longrightarrow> sublist e s"
proof (induction s rule: sub_blanks.induct)
  case 1
  then show ?case by simp
next
  case (2 c cs)
  show ?case
  proof (cases "blank c")
    case True
    let ?t = "sub_blanks (dropWhile blank cs)"
    from True 2(4) have "prefix e (SP # ?t) \<or> sublist e ?t" by (simp add: sublist_Cons_right)
    then show ?thesis
    proof
      assume p: "prefix e (SP # ?t)"
      have "e = []"
      proof (cases e)
        case Nil then show ?thesis .
      next
        case (Cons x xs)
        with p have "x = SP" by simp
        with Cons 2(3) show ?thesis by simp
      qed
      then show ?thesis by simp
    next
      assume "sublist e ?t"
      with 2(1)[OF True 2(3)] have "sublist e (dropWhile blank cs)" by blast
      moreover have "suffix (dropWhile blank cs) (c # cs)"
        by (meson suffix_dropWhile suffix_ConsI)
      ultimately show ?thesis by (meson sublist_order.order_trans suffix_imp_sublist)
    qed
  next
    case False
    from False 2(4) have "prefix e (c # sub_blanks cs) \<or> sublist e (sub_blanks cs)"
      by (simp add: sublist_Cons_right)
    then show ?thesis
    proof
      assume "prefix e (c # sub_blanks cs)"
      then have "prefix e (sub_blanks (c # cs))" using False by simp
      then have "prefix e (c # cs)" by (rule prefix_sub_blanks[OF 2(3)])
      then show ?thesis by (rule prefix_imp_sublist)
    next
      assume "sublist e (sub_blanks cs)"
      with 2(2)[OF False 2(3)] have "sublist e cs" by blast
      then show ?thesis by (simp add: sublist_Cons_right)
    qed
  qed
qed

lemma sublist_join_member: "x \<in> set xs \<Longrightarrow> sublist x (join sep xs)"
proof (induction xs rule: induct_list012)
  case 1
  then show ?case by simp
next
  case (2 y)
  then show ?case by simp
next
  case (3 y z zs)
  show ?case
  proof (cases "x = y")
    case True
    then show ?thesis by simp
  next
    case False
    with 3(3) have "sublist x (join sep (z # zs))" using 3(2) by simp
    moreover have "sublist (join sep (z # zs)) ((y @ sep) @ join sep (z # zs))"
      by (rule sublist_append_leftI)
    ultimately have "sublist x ((y @ sep) @ join sep (z # zs))"
      by (rule sublist_order.order_trans)
    then show ?thesis by simp
  qed
qed

lemma sublist_clean_replace:
  assumes "NL \<notin> set e" "SP \<notin> set e" "e \<noteq> []"
    and "sublist e (clean_whitespace (replace [NL, NL] [NL] t))"
  shows "sublist e t"
proof -
  from assms(4) have "sublist e (join [NL] (filter (\<lambda>l. l \<noteq> [])
        (map (\<lambda>l. strip (sub_blanks l)) (split_on NL t))))"
    by (simp only: clean_replace_lines)
  from sublist_join_line[OF assms(1,3) this]
  obtain l where l: "l \<in> set (split_on NL t)" "sublist e (strip (sub_blanks l))" by auto
  from l(2) have "sublist e (sub_blanks l)"
    using sublist_strip[of "sub_blanks l"] by (meson sublist_order.order_trans)
  then have "sublist e l" by (rule sublist_sub_blanks[OF assms(2)])
  moreover have "sublist l t" using sublist_join_member[OF l(1), of "[NL]"] by (simp add: join_split_on)
  ultimately show ?thesis by (meson sublist_order.order_trans)
qed

text \<open>
  C9.  A text is free of markup when the markup steps of \<open>_remove_html_tags\<close>
  leave it as it is: no entity reference to decode and no tag to strip.  For
  every such text, tag removal followed by whitespace cleaning, applied to its
  own result, gives that result again.
\<close>

theorem normalize_idempotent:
  assumes "decode_entities t = t" and "sub_tags t = t"
  shows "clean_whitespace (remove_html_tags (clean_whitespace (remove_html_tags t)))
           = clean_whitespace (remove_html_tags t)"
proof -
  let ?o = "clean_whitespace (replace [NL, NL] [NL] t)"
  have r: "remove_html_tags t = replace [NL, NL] [NL] t"
    using assms by (simp add: remove_html_tags_def)
  have "\<not> tagged t" using assms(2) sub_tags_fixed_iff by blast
  then have "\<not> tagged ?o" using tagged_clean_replace by blast
  then have tags: "sub_tags ?o = ?o" using sub_tags_fixed_iff by blast
  have "\<forall>e\<in>set entities. \<not> sublist e ?o"
  proof
    fix e assume e: "e \<in> set entities"
    then have "NL \<notin> set e" "SP \<notin> set e" "e \<noteq> []" by (auto simp: entities_def)
    then have "sublist e ?o \<Longrightarrow> sublist e t" by (rule sublist_clean_replace)
    moreover have "\<not> sublist e t" using decode_entities_fixed_only_if[OF assms(1)] e by blast
    ultimately show "\<not> sublist e ?o" by blast
  qed
  then have ents: "decode_entities ?o = ?o" by (rule decode_entities_fixed_if)
  have "remove_html_tags ?o = replace [NL, NL] [NL] ?o"
    by (simp add: remove_html_tags_def ents tags)
  then have "clean_whitespace (remove_html_tags ?o) = clean_whitespace ?o"
    by (simp add: clean_whitespace_replace)
  also have "\<dots> = ?o" by (rule clean_whitespace_idem)
  finally show ?thesis unfolding r .
qed

theorem normalize_idempotent_witness:
  "clean_whitespace (remove_html_tags (clean_whitespace (remove_html_tags
       ('' a  b'' @ [TAB, NL, NL, NL] @ ''c < d & e ''))))
     = clean_whitespace (remove_html_tags ('' a  b'' @ [TAB, NL, NL, NL] @ ''c < d & e ''))
   \<and> clean_whitespace (remove_html_tags ('' a  b'' @ [TAB, NL, NL, NL] @ ''c < d & e ''))
     = ''a b'' @ [NL] @ ''c < d & e''"
proof
  have 1: "decode_entities ('' a  b'' @ [TAB, NL, NL, NL] @ ''c < d & e '')
      = '' a  b'' @ [TAB, NL, NL, NL] @ ''c < d & e ''"
    by code_simp
  have 2: "sub_tags ('' a  b'' @ [TAB, NL, NL, NL] @ ''c < d & e '')
      = '' a  b'' @ [TAB, NL, NL, NL] @ ''c < d & e ''"
    by code_simp
  show "clean_whitespace (remove_html_tags (clean_whitespace (remove_html_tags
       ('' a  b'' @ [TAB, NL, NL, NL] @ ''c < d & e ''))))
     = clean_whitespace (remove_html_tags ('' a  b'' @ [TAB, NL, NL, NL] @ ''c < d & e ''))"
    by (rule normalize_idempotent[OF 1 2])
  show "clean_whitespace (remove_html_tags ('' a  b'' @ [TAB, NL, NL, NL] @ ''c < d & e ''))
     = ''a b'' @ [NL] @ ''c < d & e''"
    by code_simp
qed

end
